theory Spec2Isabelle
  imports Main "HOL-Library.Word"
begin

unbundle bit_operations_syntax

section \<open>Python values used by the agent\<close>

text \<open>
  A Python \<open>str\<close> is a sequence of Unicode code points; it is modelled as the list of
  their numbers, so that \<open>len\<close>, \<open>startswith\<close>, \<open>split\<close> and \<open>strip\<close> count what
  Python counts. \<open>lit\<close> turns an ASCII literal of the source into such a sequence.
  \<open>bytes\<close> is a list of octets.
\<close>

type_synonym str = "nat list"
type_synonym bytes = "8 word list"

definition lit :: "string \<Rightarrow> str" where
  "lit s = map of_char s"

datatype error = IndexError | TypeError | ValueError

text \<open>\<open>s.startswith(p)\<close>\<close>

definition startswith :: "str \<Rightarrow> str \<Rightarrow> bool" where
  "startswith s p \<longleftrightarrow> take (length p) s = p"

text \<open>\<open>sep in s\<close>: \<open>sep\<close> occurs in \<open>s\<close> as a contiguous run.\<close>

fun contains :: "str \<Rightarrow> str \<Rightarrow> bool" where
  "contains [] sep = (sep = [])"
| "contains (c # cs) sep = (startswith (c # cs) sep \<or> contains cs sep)"

text \<open>
  \<open>s.split(sep)\<close> for a given separator: Python raises \<open>ValueError\<close> on the empty
  separator; otherwise it cuts at the leftmost occurrences of \<open>sep\<close>, scanning from the
  left, and always yields at least one piece. \<open>split_scan sep cur s\<close> scans the rest \<open>s\<close>
  with \<open>cur\<close> the piece collected since the last cut.
\<close>

function split_scan :: "str \<Rightarrow> str \<Rightarrow> str \<Rightarrow> str list" where
  "split_scan sep cur [] = [cur]"
| "split_scan sep cur (c # cs) =
     (if sep \<noteq> [] \<and> startswith (c # cs) sep
      then cur # split_scan sep [] (drop (length sep) (c # cs))
      else split_scan sep (cur @ [c]) cs)"
  by pat_completeness auto
termination
  by (relation "measure (\<lambda>(sep, cur, s). length s)") auto

definition split :: "str \<Rightarrow> str \<Rightarrow> error + str list" where
  "split s sep = (if sep = [] then Inl ValueError else Inr (split_scan sep [] s))"

text \<open>\<open>xs[i]\<close> for a non-negative index: \<open>IndexError\<close> out of range.\<close>

definition getitem :: "'a list \<Rightarrow> nat \<Rightarrow> error + 'a" where
  "getitem xs i = (if i < length xs then Inr (xs ! i) else Inl IndexError)"

text \<open>
  \<open>s.strip()\<close> removes leading and trailing whitespace, where whitespace is what
  \<open>str.isspace\<close> accepts: the code points below.
\<close>

definition isspace :: "nat \<Rightarrow> bool" where
  "isspace c \<longleftrightarrow>
     (9 \<le> c \<and> c \<le> 13) \<or> (28 \<le> c \<and> c \<le> 32) \<or> c = 133 \<or> c = 160 \<or> c = 5760 \<or>
     (8192 \<le> c \<and> c \<le> 8202) \<or> c = 8232 \<or> c = 8233 \<or> c = 8239 \<or> c = 8287 \<or> c = 12288"

definition strip :: "str \<Rightarrow> str" where
  "strip s = rev (dropWhile isspace (rev (dropWhile isspace s)))"

section \<open>tools.py: sanitize_image_id\<close>

text \<open>
  \<^verbatim>\<open>
  def sanitize_image_id(image_id: str) -> str:
      if image_id.startswith("[IMAGE-"):
          image_id = image_id.split("ID ")[1].split("]")[0]
      return image_id.strip()
  \<close>
\<close>

definition sanitize_image_id :: "str \<Rightarrow> error + str" where
  "sanitize_image_id image_id =
     (if startswith image_id (lit ''[IMAGE-'') then
        (case split image_id (lit ''ID '') of
           Inl e \<Rightarrow> Inl e
         | Inr pieces \<Rightarrow>
             (case getitem pieces 1 of
                Inl e \<Rightarrow> Inl e
              | Inr inner \<Rightarrow>
                  (case split inner (lit '']'') of
                     Inl e \<Rightarrow> Inl e
                   | Inr pieces' \<Rightarrow>
                       (case getitem pieces' 0 of
                          Inl e \<Rightarrow> Inl e
                        | Inr bare \<Rightarrow> Inr (strip bare)))))
      else Inr (strip image_id))"

section \<open>hashlib.sha256\<close>

text \<open>
  \<open>hashlib.sha256(data).hexdigest()\<close> is the SHA-256 digest of FIPS 180-4, written as 64
  lowercase hexadecimal digits. The digest works on 32-bit words; additions wrap around.
\<close>

type_synonym w32 = "32 word"

definition rotr :: "nat \<Rightarrow> w32 \<Rightarrow> w32" where
  "rotr n x = (drop_bit n x) OR (push_bit (32 - n) x)"

definition Ch :: "w32 \<Rightarrow> w32 \<Rightarrow> w32 \<Rightarrow> w32" where
  "Ch x y z = (x AND y) XOR (NOT x AND z)"

definition Maj :: "w32 \<Rightarrow> w32 \<Rightarrow> w32 \<Rightarrow> w32" where
  "Maj x y z = (x AND y) XOR (x AND z) XOR (y AND z)"

definition Sigma0 :: "w32 \<Rightarrow> w32" where
  "Sigma0 x = rotr 2 x XOR rotr 13 x XOR rotr 22 x"

definition Sigma1 :: "w32 \<Rightarrow> w32" where
  "Sigma1 x = rotr 6 x XOR rotr 11 x XOR rotr 25 x"

definition sigma0 :: "w32 \<Rightarrow> w32" where
  "sigma0 x = rotr 7 x XOR rotr 18 x XOR drop_bit 3 x"

definition sigma1 :: "w32 \<Rightarrow> w32" where
  "sigma1 x = rotr 17 x XOR rotr 19 x XOR drop_bit 10 x"

text \<open>The round constants, eight to a row, in the order of the rounds.\<close>

definition K256 :: "w32 list" where
  "K256 = concat [
    [0x428a2f98, 0x71374491, 0xb5c0fbcf, 0xe9b5dba5, 0x3956c25b, 0x59f111f1, 0x923f82a4, 0xab1c5ed5],
    [0xd807aa98, 0x12835b01, 0x243185be, 0x550c7dc3, 0x72be5d74, 0x80deb1fe, 0x9bdc06a7, 0xc19bf174],
    [0xe49b69c1, 0xefbe4786, 0x0fc19dc6, 0x240ca1cc, 0x2de92c6f, 0x4a7484aa, 0x5cb0a9dc, 0x76f988da],
    [0x983e5152, 0xa831c66d, 0xb00327c8, 0xbf597fc7, 0xc6e00bf3, 0xd5a79147, 0x06ca6351, 0x14292967],
    [0x27b70a85, 0x2e1b2138, 0x4d2c6dfc, 0x53380d13, 0x650a7354, 0x766a0abb, 0x81c2c92e, 0x92722c85],
    [0xa2bfe8a1, 0xa81a664b, 0xc24b8b70, 0xc76c51a3, 0xd192e819, 0xd6990624, 0xf40e3585, 0x106aa070],
    [0x19a4c116, 0x1e376c08, 0x2748774c, 0x34b0bcb5, 0x391c0cb3, 0x4ed8aa4a, 0x5b9cca4f, 0x682e6ff3],
    [0x748f82ee, 0x78a5636f, 0x84c87814, 0x8cc70208, 0x90befffa, 0xa4506ceb, 0xbef9a3f7, 0xc67178f2]]"

definition H256 :: "w32 list" where
  "H256 = [0x6a09e667, 0xbb67ae85, 0x3c6ef372, 0xa54ff53a,
           0x510e527f, 0x9b05688c, 0x1f83d9ab, 0x5be0cd19]"

text \<open>
  Padding: the octet 0x80, zero octets up to 56 modulo 64, then the length of the message
  in bits as 64 bits, most significant octet first.
\<close>

definition be_bytes64 :: "64 word \<Rightarrow> bytes" where
  "be_bytes64 w = map (\<lambda>i. ucast (drop_bit (8 * (7 - i)) w)) [0..<8]"

definition pad :: "bytes \<Rightarrow> bytes" where
  "pad m = m @ [0x80] @ replicate ((119 - length m mod 64) mod 64) 0
             @ be_bytes64 (push_bit 3 (of_nat (length m)))"

fun be_words :: "bytes \<Rightarrow> w32 list" where
  "be_words (a # b # c # d # rest) =
     (push_bit 24 (ucast a) OR push_bit 16 (ucast b) OR push_bit 8 (ucast c) OR ucast d) # be_words rest"
| "be_words _ = []"

fun extend :: "nat \<Rightarrow> w32 list \<Rightarrow> w32 list" where
  "extend 0 w = w"
| "extend (Suc k) w =
     (let n = length w
      in extend k (w @ [sigma1 (w ! (n - 2)) + w ! (n - 7) + sigma0 (w ! (n - 15)) + w ! (n - 16)]))"

fun round256 :: "w32 list \<Rightarrow> w32 \<times> w32 \<Rightarrow> w32 list" where
  "round256 [a, b, c, d, e, f, g, h] (k, w) =
     (let t1 = h + Sigma1 e + Ch e f g + k + w;
          t2 = Sigma0 a + Maj a b c
      in [t1 + t2, a, b, c, d + t1, e, f, g])"
| "round256 s _ = s"

definition compress :: "w32 list \<Rightarrow> w32 list \<Rightarrow> w32 list" where
  "compress h block = map2 (+) h (foldl round256 h (zip K256 (extend 48 block)))"

fun blocks :: "nat \<Rightarrow> w32 list \<Rightarrow> w32 list \<Rightarrow> w32 list" where
  "blocks 0 h ws = h"
| "blocks (Suc n) h ws = blocks n (compress h (take 16 ws)) (drop 16 ws)"

definition sha256 :: "bytes \<Rightarrow> w32 list" where
  "sha256 m = (let ws = be_words (pad m) in blocks (length ws div 16) H256 ws)"

definition hexchar :: "w32 \<Rightarrow> char" where
  "hexchar x = ''0123456789abcdef'' ! unat (x AND 15)"

definition hex32 :: "w32 \<Rightarrow> string" where
  "hex32 w = map (\<lambda>i. hexchar (drop_bit (4 * (7 - i)) w)) [0..<8]"

definition hexdigest :: "bytes \<Rightarrow> string" where
  "hexdigest m = concat (map hex32 (sha256 m))"

section \<open>callbacks.py: the data the callback reads\<close>

text \<open>
  Modelled from the spec: the types of the agent framework (\<open>Content\<close>, \<open>Part\<close>, \<open>Blob\<close>)
  are declared outside the repository. A turn has a role and an ordered sequence of parts,
  as the spec's data model says. A part is given by the three attributes the callback
  reads, \<open>inline_data\<close>, \<open>text\<close> and \<open>function_response\<close>, each of which may be \<open>None\<close>
  as the code tests them, and \<open>inline_data.data\<close> may be \<open>None\<close> as well. The attribute
  \<open>text\<close> is named \<open>part_text\<close> here. A function response is only ever tested for
  presence.
\<close>

datatype function_response = FunctionResponse (response_name: str)

record blob =
  data :: "bytes option"
  mime_type :: "str option"

record part =
  inline_data :: "blob option"
  part_text :: "str option"
  function_response :: "function_response option"

record content =
  role :: "str option"
  parts :: "part list"

text \<open>\<open>types.Part(text=placeholder)\<close>\<close>

definition text_part :: "str \<Rightarrow> part" where
  "text_part t = \<lparr>inline_data = None, part_text = Some t, function_response = None\<rparr>"

section \<open>callbacks.py: modify_image_data_in_history\<close>

text \<open>\<open>hashlib.sha256(image_data).hexdigest()[:12]\<close>\<close>

definition image_hash_id :: "bytes \<Rightarrow> str" where
  "image_hash_id image_data = lit (take 12 (hexdigest image_data))"

text \<open>\<open>f"[IMAGE-ID {image_hash_id}]"\<close>\<close>

definition placeholder :: "bytes \<Rightarrow> str" where
  "placeholder image_data = lit ''[IMAGE-ID '' @ image_hash_id image_data @ lit '']''"

text \<open>
  \<^verbatim>\<open>
  is_placeholder_missing = (
      (idx + 1 >= len(content.parts))
      or (content.parts[idx + 1].text is None)
      or (not content.parts[idx + 1].text.startswith("[IMAGE-ID "))
  )
  \<close>
\<close>

definition is_placeholder_missing :: "part list \<Rightarrow> nat \<Rightarrow> bool" where
  "is_placeholder_missing ps idx \<longleftrightarrow>
     idx + 1 \<ge> length ps \<or>
     (case part_text (ps ! (idx + 1)) of
        None \<Rightarrow> True
      | Some t \<Rightarrow> \<not> startswith t (lit ''[IMAGE-ID ''))"

text \<open>
  One iteration of the loop over \<open>enumerate(content.parts)\<close>: the parts it appends to
  \<open>modified_content_parts\<close>, or the \<open>TypeError\<close> that \<open>hashlib.sha256(None)\<close> raises.
\<close>

definition process_part :: "nat \<Rightarrow> part list \<Rightarrow> nat \<Rightarrow> error + part list" where
  "process_part user_message_count ps idx =
     (let p = ps ! idx in
      case inline_data p of
        None \<Rightarrow> Inr [p]
      | Some b \<Rightarrow>
          if is_placeholder_missing ps idx then
            (case data b of
               None \<Rightarrow> Inl TypeError
             | Some image_data \<Rightarrow>
                 Inr ((if user_message_count \<le> 3 then [p] else [])
                      @ [text_part (placeholder image_data)]))
          else Inr (if user_message_count \<le> 3 then [p] else []))"

text \<open>The loop itself, over the indices still to visit, with the parts assembled so far.\<close>

fun process_parts_loop :: "nat \<Rightarrow> part list \<Rightarrow> nat list \<Rightarrow> part list \<Rightarrow> error + part list" where
  "process_parts_loop n ps [] acc = Inr acc"
| "process_parts_loop n ps (idx # idxs) acc =
     (case process_part n ps idx of
        Inl e \<Rightarrow> Inl e
      | Inr new \<Rightarrow> process_parts_loop n ps idxs (acc @ new))"

definition process_parts :: "nat \<Rightarrow> part list \<Rightarrow> error + part list" where
  "process_parts n ps = process_parts_loop n ps [0..<length ps] []"

text \<open>
  \<open>(content.role == "user") and (content.parts[0].function_response is None)\<close>:
  \<open>and\<close> evaluates its right operand only for a user turn, and \<open>content.parts[0]\<close>
  raises \<open>IndexError\<close> on an empty list.
\<close>

definition is_manual_query :: "content \<Rightarrow> error + bool" where
  "is_manual_query c =
     (if role c = Some (lit ''user'') then
        (case getitem (parts c) 0 of
           Inl e \<Rightarrow> Inl e
         | Inr p \<Rightarrow> Inr (function_response p = None))
      else Inr False)"

text \<open>
  The loop over \<open>reversed(llm_request.contents)\<close>. The list is given in the order of the
  traversal, newest turn first, with the value of \<open>user_message_count\<close> on entry; the
  result is the traversed list with each \<open>content.parts\<close> as the loop leaves it.
\<close>

fun process_contents :: "nat \<Rightarrow> content list \<Rightarrow> error + content list" where
  "process_contents n [] = Inr []"
| "process_contents n (c # cs) =
     (case is_manual_query c of
        Inl e \<Rightarrow> Inl e
      | Inr False \<Rightarrow>
          (case process_contents n cs of
             Inl e \<Rightarrow> Inl e
           | Inr cs' \<Rightarrow> Inr (c # cs'))
      | Inr True \<Rightarrow>
          (case process_parts (n + 1) (parts c) of
             Inl e \<Rightarrow> Inl e
           | Inr ps' \<Rightarrow>
               (case process_contents (n + 1) cs of
                  Inl e \<Rightarrow> Inl e
                | Inr cs' \<Rightarrow> Inr (c\<lparr>parts := ps'\<rparr> # cs'))))"

text \<open>The traversal started with a given counter, on a history in chronological order.\<close>

definition compact_from :: "nat \<Rightarrow> content list \<Rightarrow> error + content list" where
  "compact_from n contents =
     (case process_contents n (rev contents) of
        Inl e \<Rightarrow> Inl e
      | Inr cs' \<Rightarrow> Inr (rev cs'))"

text \<open>
  The callback: \<open>user_message_count = 0\<close>, then the traversal. It mutates the request
  and returns nothing; the model returns the contents it leaves behind. Where the
  traversal raises, the model gives the exception alone: the turns rewritten before it
  are not part of the result.
\<close>

definition modify_image_data_in_history :: "content list \<Rightarrow> error + content list" where
  "modify_image_data_in_history contents = compact_from 0 contents"

section \<open>Vocabulary of the properties\<close>

text \<open>A countable user turn: one the traversal counts and rewrites.\<close>

definition countable :: "content \<Rightarrow> bool" where
  "countable c \<longleftrightarrow> is_manual_query c = Inr True"

definition manual_queries :: "content list \<Rightarrow> nat" where
  "manual_queries h = length (filter countable h)"

text \<open>
  The recency of turn \<open>i\<close>: the number of countable turns from \<open>i\<close> to the newest one,
  whether or not they carry images.
\<close>

definition recency :: "content list \<Rightarrow> nat \<Rightarrow> nat" where
  "recency h i = manual_queries (drop i h)"

definition has_binary :: "part \<Rightarrow> bool" where
  "has_binary p \<longleftrightarrow> inline_data p \<noteq> None"

definition payload :: "part \<Rightarrow> bytes option" where
  "payload p = (case inline_data p of None \<Rightarrow> None | Some b \<Rightarrow> data b)"

text \<open>A part whose text starts with \<open>[IMAGE-ID \<close>: what the callback takes for a placeholder.\<close>

definition is_placeholder :: "part \<Rightarrow> bool" where
  "is_placeholder p \<longleftrightarrow>
     (case part_text p of None \<Rightarrow> False | Some t \<Rightarrow> startswith t (lit ''[IMAGE-ID ''))"

text \<open>
  Every binary part that lacks a placeholder carries a payload: what hashing needs.
\<close>

definition payloads_present :: "part list \<Rightarrow> bool" where
  "payloads_present ps \<longleftrightarrow>
     (\<forall>idx < length ps. has_binary (ps ! idx) \<and> is_placeholder_missing ps idx
        \<longrightarrow> payload (ps ! idx) \<noteq> None)"

text \<open>
  The histories on which the callback returns: every user turn has a first part, and
  every countable turn has the payloads it hashes.
\<close>

definition runs_ok :: "content list \<Rightarrow> bool" where
  "runs_ok h \<longleftrightarrow>
     (\<forall>c \<in> set h. (role c = Some (lit ''user'') \<longrightarrow> parts c \<noteq> [])
                 \<and> (countable c \<longrightarrow> payloads_present (parts c)))"

text \<open>
  Turns and parts as the scenarios build them: an image part with its bytes, a part that
  carries a function response, a manual user turn and a turn of another role.
\<close>

definition image_part :: "bytes \<Rightarrow> part" where
  "image_part d =
     \<lparr>inline_data = Some \<lparr>data = Some d, mime_type = Some (lit ''image/jpeg'')\<rparr>,
      part_text = None, function_response = None\<rparr>"

definition tool_result_part :: "str \<Rightarrow> part" where
  "tool_result_part name =
     \<lparr>inline_data = None, part_text = None,
      function_response = Some (FunctionResponse name)\<rparr>"

definition user_turn :: "part list \<Rightarrow> content" where
  "user_turn ps = \<lparr>role = Some (lit ''user''), parts = ps\<rparr>"

definition model_turn :: "part list \<Rightarrow> content" where
  "model_turn ps = \<lparr>role = Some (lit ''model''), parts = ps\<rparr>"

text \<open>
  The parts the inner loop emits for a suffix of the turn, given as the list from the
  current part onwards: the part inspected at \<open>idx + 1\<close> is the second of that list.
  It is proved below to be what the loop over the indices computes.
\<close>

fun emit_suffix :: "nat \<Rightarrow> part list \<Rightarrow> error + part list" where
  "emit_suffix n [] = Inr []"
| "emit_suffix n (p # rest) =
     (case process_part n (p # rest) 0 of
        Inl e \<Rightarrow> Inl e
      | Inr new \<Rightarrow>
          (case emit_suffix n rest of
             Inl e \<Rightarrow> Inl e
           | Inr out \<Rightarrow> Inr (new @ out)))"

section \<open>Properties of sanitize_image_id\<close>

lemma lit_simps: "lit ''[IMAGE-'' = [91,73,77,65,71,69,45]" "lit ''ID '' = [73,68,32]" "lit '']'' = [93]"
  "lit ''[IMAGE-ID '' = [91,73,77,65,71,69,45,73,68,32]"
  by (simp_all add: lit_def)

lemma contains_iff: "contains s sep \<longleftrightarrow> (\<exists>pre post. s = pre @ sep @ post)"
proof (induction s)
  case Nil
  then show ?case by auto
next
  case (Cons c cs)
  show ?case
  proof
    assume "contains (c # cs) sep"
    then consider "startswith (c # cs) sep" | "contains cs sep" by auto
    then show "\<exists>pre post. c # cs = pre @ sep @ post"
    proof cases
      case 1
      then have "c # cs = [] @ sep @ drop (length sep) (c # cs)"
        unfolding startswith_def by (metis append_Nil append_take_drop_id)
      then show ?thesis by blast
    next
      case 2
      then obtain pre post where "cs = pre @ sep @ post" using Cons.IH by blast
      then have "c # cs = (c # pre) @ sep @ post" by simp
      then show ?thesis by blast
    qed
  next
    assume "\<exists>pre post. c # cs = pre @ sep @ post"
    then obtain pre post where e: "c # cs = pre @ sep @ post" by blast
    show "contains (c # cs) sep"
    proof (cases pre)
      case Nil
      then have "startswith (c # cs) sep" using e by (simp add: startswith_def)
      then show ?thesis by simp
    next
      case (Cons a pre')
      then have "cs = pre' @ sep @ post" using e by simp
      then show ?thesis using Cons.IH by auto
    qed
  qed
qed

lemma split_scan_absent: "\<not> contains s sep \<Longrightarrow> split_scan sep cur s = [cur @ s]"
  by (induction sep cur s rule: split_scan.induct) auto

lemma split_scan_nonempty: "split_scan sep cur s \<noteq> []"
  by (induction sep cur s rule: split_scan.induct) auto

lemma split_scan_present: "sep \<noteq> [] \<Longrightarrow> contains s sep \<Longrightarrow> 2 \<le> length (split_scan sep cur s)"
proof (induction sep cur s rule: split_scan.induct)
  case (1 sep cur)
  then show ?case by simp
next
  case (2 sep cur c cs)
  show ?case
  proof (cases "startswith (c # cs) sep")
    case True
    have "split_scan sep [] (drop (length sep) (c # cs)) \<noteq> []"
      by (rule split_scan_nonempty)
    then show ?thesis using True 2 by (cases "split_scan sep [] (drop (length sep) (c # cs))") auto
  next
    case False
    then show ?thesis using 2 by auto
  qed
qed

lemma split_scan_single: "c \<notin> set s \<Longrightarrow> split_scan [c] cur (s @ c # rest) = (cur @ s) # split_scan [c] [] rest"
  by (induction s arbitrary: cur) (auto simp: startswith_def)


lemma contains_snoc:
  assumes "\<not> contains s sep" and "sep \<noteq> []" and "last sep \<noteq> c"
  shows "\<not> contains (s @ [c]) sep"
proof
  assume "contains (s @ [c]) sep"
  then obtain pre post where e: "s @ [c] = pre @ sep @ post"
    using contains_iff by blast
  show False
  proof (cases post rule: rev_cases)
    case Nil
    then have "last (s @ [c]) = last sep" using e assms(2) by simp
    then show False using assms(3) by simp
  next
    case (snoc post' x)
    then have "s @ [c] = (pre @ sep @ post') @ [x]" using e by simp
    then have "s = pre @ sep @ post'" by (simp only: append1_eq_conv)
    then show False using assms(1) contains_iff by blast
  qed
qed

text \<open>
  C9, as stated, fails: a wrapped id that itself contains \<open>ID \<close> and no \<open>]\<close> is cut at
  its own \<open>ID \<close>, so \<open>[IMAGE-ID ID x]\<close> gives the empty string, not \<open>ID x\<close>.
\<close>

theorem sanitize_image_id_wrapped_ID_counterexample:
  "sanitize_image_id (lit ''[IMAGE-ID '' @ lit ''ID x'' @ lit '']'') = Inr []
   \<and> 93 \<notin> set (lit ''ID x'') \<and> strip (lit ''ID x'') = lit ''ID x''
   \<and> sanitize_image_id (lit ''[IMAGE-ID '' @ lit ''ID x'' @ lit '']'') \<noteq> Inr (strip (lit ''ID x''))"
  by (simp add: sanitize_image_id_def split_def getitem_def startswith_def strip_def isspace_def lit_def)

text \<open>
  C9 (amended): for every string \<open>s\<close> that does not start with \<open>[IMAGE-\<close>,
  \<open>sanitize_image_id(s)\<close> is \<open>s.strip()\<close>; and for every \<open>s\<close> that contains neither \<open>]\<close>
  nor the substring \<open>ID \<close>, \<open>sanitize_image_id('[IMAGE-ID ' + s + ']')\<close> is \<open>s.strip()\<close>.
\<close>

theorem sanitize_image_id_bare_or_wrapped:
  "(\<not> startswith s (lit ''[IMAGE-'') \<longrightarrow> sanitize_image_id s = Inr (strip s)) \<and>
   (93 \<notin> set s \<and> \<not> contains s (lit ''ID '') \<longrightarrow>
      sanitize_image_id (lit ''[IMAGE-ID '' @ s @ lit '']'') = Inr (strip s))"
proof (intro conjI impI)
  assume "\<not> startswith s (lit ''[IMAGE-'')"
  then show "sanitize_image_id s = Inr (strip s)"
    by (simp add: sanitize_image_id_def)
next
  assume a: "93 \<notin> set s \<and> \<not> contains s (lit ''ID '')"
  have sw: "startswith (lit ''[IMAGE-ID '' @ s @ lit '']'') (lit ''[IMAGE-'')"
    by (simp add: startswith_def lit_simps)
  have nc: "\<not> contains (s @ [93]) [73, 68, 32]"
    using a by (intro contains_snoc) (simp_all add: lit_simps)
  have "split_scan [73, 68, 32] [] (lit ''[IMAGE-ID '' @ s @ lit '']'')
        = [91, 73, 77, 65, 71, 69, 45] # split_scan [73, 68, 32] [] (s @ [93])"
    by (simp add: lit_simps startswith_def)
  also have "split_scan [73, 68, 32] [] (s @ [93]) = [s @ [93]]"
    using split_scan_absent [OF nc, of "[]"] by simp
  finally have s1: "split (lit ''[IMAGE-ID '' @ s @ lit '']'') (lit ''ID '')
        = Inr [[91, 73, 77, 65, 71, 69, 45], s @ [93]]"
    by (simp add: split_def lit_simps)
  have "split_scan [93] [] (s @ 93 # []) = ([] @ s) # split_scan [93] [] []"
    using a by (intro split_scan_single) simp
  then have s2: "split (s @ [93]) (lit '']'') = Inr [s, []]"
    by (simp add: split_def lit_simps)
  show "sanitize_image_id (lit ''[IMAGE-ID '' @ s @ lit '']'') = Inr (strip s)"
    unfolding sanitize_image_id_def using sw s1 s2 by (simp add: getitem_def)
qed

theorem sanitize_image_id_bare_or_wrapped_witness:
  "\<not> startswith (lit '' 3f9a0c1b7e2d'') (lit ''[IMAGE-'')
   \<and> sanitize_image_id (lit '' 3f9a0c1b7e2d'') = Inr (lit ''3f9a0c1b7e2d'')
   \<and> 93 \<notin> set (lit ''3f9a0c1b7e2d'') \<and> \<not> contains (lit ''3f9a0c1b7e2d'') (lit ''ID '')
   \<and> sanitize_image_id (lit ''[IMAGE-ID 3f9a0c1b7e2d]'') = Inr (lit ''3f9a0c1b7e2d'')"
proof -
  have h1: "\<not> startswith (lit '' 3f9a0c1b7e2d'') (lit ''[IMAGE-'')"
    by (simp add: startswith_def lit_def)
  have h2: "93 \<notin> set (lit ''3f9a0c1b7e2d'') \<and> \<not> contains (lit ''3f9a0c1b7e2d'') (lit ''ID '')"
    by (simp add: startswith_def lit_def)
  have st: "strip (lit '' 3f9a0c1b7e2d'') = lit ''3f9a0c1b7e2d''"
     "strip (lit ''3f9a0c1b7e2d'') = lit ''3f9a0c1b7e2d''"
    by (simp_all add: strip_def isspace_def lit_def)
  have ap: "lit ''[IMAGE-ID '' @ lit ''3f9a0c1b7e2d'' @ lit '']'' = lit ''[IMAGE-ID 3f9a0c1b7e2d]''"
    by (simp add: lit_def)
  show ?thesis
    using sanitize_image_id_bare_or_wrapped [of "lit '' 3f9a0c1b7e2d''"]
      sanitize_image_id_bare_or_wrapped [of "lit ''3f9a0c1b7e2d''"] h1 h2 st ap
    by simp
qed

text \<open>
  C10: \<open>sanitize_image_id\<close> raises \<open>IndexError\<close> on every string that starts with
  \<open>[IMAGE-\<close> and contains no \<open>ID \<close>, and returns a value on every other string.
\<close>

theorem sanitize_image_id_partial:
  "(startswith s (lit ''[IMAGE-'') \<and> \<not> contains s (lit ''ID '')
      \<longrightarrow> sanitize_image_id s = Inl IndexError) \<and>
   (\<not> (startswith s (lit ''[IMAGE-'') \<and> \<not> contains s (lit ''ID ''))
      \<longrightarrow> (\<exists>r. sanitize_image_id s = Inr r))"
proof (intro conjI impI)
  assume a: "startswith s (lit ''[IMAGE-'') \<and> \<not> contains s (lit ''ID '')"
  then have "split_scan (lit ''ID '') [] s = [s]"
    using split_scan_absent [of s "lit ''ID ''" "[]"] by simp
  then show "sanitize_image_id s = Inl IndexError"
    using a by (simp add: sanitize_image_id_def split_def getitem_def lit_simps)
next
  assume a: "\<not> (startswith s (lit ''[IMAGE-'') \<and> \<not> contains s (lit ''ID ''))"
  show "\<exists>r. sanitize_image_id s = Inr r"
  proof (cases "startswith s (lit ''[IMAGE-'')")
    case False
    then show ?thesis by (simp add: sanitize_image_id_def)
  next
    case True
    then have "contains s (lit ''ID '')" using a by simp
    then have "2 \<le> length (split_scan (lit ''ID '') [] s)"
      by (intro split_scan_present) (simp_all add: lit_simps)
    moreover have "0 < length (split_scan (lit '']'') [] t)" for t
      using split_scan_nonempty [of "lit '']''" "[]" t] by simp
    ultimately show ?thesis
      using True by (simp add: sanitize_image_id_def split_def getitem_def lit_simps)
  qed
qed

theorem sanitize_image_id_partial_witness:
  "startswith (lit ''[IMAGE-7]'') (lit ''[IMAGE-'') \<and> \<not> contains (lit ''[IMAGE-7]'') (lit ''ID '')
   \<and> sanitize_image_id (lit ''[IMAGE-7]'') = Inl IndexError
   \<and> \<not> (startswith (lit ''abc'') (lit ''[IMAGE-'') \<and> \<not> contains (lit ''abc'') (lit ''ID ''))
   \<and> (\<exists>r. sanitize_image_id (lit ''abc'') = Inr r)"
proof -
  have h1: "startswith (lit ''[IMAGE-7]'') (lit ''[IMAGE-'') \<and> \<not> contains (lit ''[IMAGE-7]'') (lit ''ID '')"
    by (simp add: startswith_def lit_def)
  have h2: "\<not> (startswith (lit ''abc'') (lit ''[IMAGE-'') \<and> \<not> contains (lit ''abc'') (lit ''ID ''))"
    by (simp add: startswith_def lit_def)
  show ?thesis
    using sanitize_image_id_partial [of "lit ''[IMAGE-7]''"] sanitize_image_id_partial [of "lit ''abc''"] h1 h2
    by blast
qed

section \<open>The inner loop, part by part\<close>

lemma is_placeholder_missing_drop:
  "idx < length ps \<Longrightarrow> is_placeholder_missing (drop idx ps) 0 = is_placeholder_missing ps idx"
proof -
  assume lt: "idx < length ps"
  have "(1 \<ge> length ps - idx) = (idx + 1 \<ge> length ps)" using lt by arith
  moreover have "idx + 1 < length ps \<Longrightarrow> drop idx ps ! 1 = ps ! (idx + 1)" by simp
  ultimately show ?thesis
    unfolding is_placeholder_missing_def by (cases "idx + 1 < length ps") auto
qed

lemma process_part_drop:
  "idx < length ps \<Longrightarrow> process_part n ps idx = process_part n (drop idx ps) 0"
  by (simp add: process_part_def is_placeholder_missing_drop Let_def split: option.splits)

lemma loop_acc:
  "process_parts_loop n ps idxs acc =
     (case process_parts_loop n ps idxs [] of Inl e \<Rightarrow> Inl e | Inr out \<Rightarrow> Inr (acc @ out))"
proof (induction idxs arbitrary: acc)
  case Nil
  then show ?case by simp
next
  case (Cons i idxs)
  show ?case
  proof (cases "process_part n ps i")
    case (Inl e)
    then show ?thesis by simp
  next
    case (Inr new)
    show ?thesis
      using Cons.IH [of "acc @ new"] Cons.IH [of new] Inr
      by (simp split: sum.splits)
  qed
qed

lemma loop_append:
  "process_parts_loop n ps (xs @ ys) acc =
     (case process_parts_loop n ps xs acc of Inl e \<Rightarrow> Inl e | Inr a \<Rightarrow> process_parts_loop n ps ys a)"
  by (induction xs arbitrary: acc) (auto split: sum.splits)

lemma loop_suffix:
  "i \<le> length ps \<Longrightarrow>
   process_parts_loop n ps [i..<length ps] [] = emit_suffix n (drop i ps)"
proof (induction "length ps - i" arbitrary: i)
  case 0
  then show ?case by simp
next
  case (Suc k)
  then have lt: "i < length ps" by simp
  then have d: "drop i ps = ps ! i # drop (Suc i) ps"
    by (simp add: Cons_nth_drop_Suc)
  have ih: "process_parts_loop n ps [Suc i..<length ps] [] = emit_suffix n (drop (Suc i) ps)"
    using Suc by simp
  have pp: "process_part n (ps ! i # drop (Suc i) ps) 0 = process_part n ps i"
    using process_part_drop [OF lt, of n] d by simp
  have up: "[i..<length ps] = i # [Suc i..<length ps]"
    using lt by (simp add: upt_conv_Cons)
  show ?case
  proof (cases "process_part n ps i")
    case (Inl e)
    then show ?thesis using pp by (simp add: up d)
  next
    case (Inr new)
    have "process_parts_loop n ps [i..<length ps] [] = process_parts_loop n ps [Suc i..<length ps] new"
      using Inr by (simp add: up)
    also have "\<dots> = (case emit_suffix n (drop (Suc i) ps) of Inl e \<Rightarrow> Inl e | Inr out \<Rightarrow> Inr (new @ out))"
      using loop_acc [of n ps "[Suc i..<length ps]" new] by (simp only: ih)
    also have "\<dots> = emit_suffix n (drop i ps)"
      using Inr pp by (simp add: d)
    finally show ?thesis .
  qed
qed

lemma process_parts_suffix: "process_parts n ps = emit_suffix n ps"
  using loop_suffix [of 0 ps n] by (simp add: process_parts_def)


lemma missing_Cons0:
  "is_placeholder_missing (p # rest) 0 \<longleftrightarrow> (case rest of [] \<Rightarrow> True | q # _ \<Rightarrow> \<not> is_placeholder q)"
  by (auto simp: is_placeholder_missing_def is_placeholder_def split: list.splits option.splits)

lemma missing_Cons_Suc:
  "is_placeholder_missing (p # rest) (Suc i) = is_placeholder_missing rest i"
  by (simp add: is_placeholder_missing_def)

lemma emit_plain:
  "inline_data p = None \<Longrightarrow>
   emit_suffix n (p # rest) = (case emit_suffix n rest of Inl e \<Rightarrow> Inl e | Inr out \<Rightarrow> Inr (p # out))"
  by (simp add: process_part_def split: sum.splits)

lemma emit_no_payload:
  "inline_data p = Some b \<Longrightarrow> is_placeholder_missing (p # rest) 0 \<Longrightarrow> data b = None \<Longrightarrow>
   emit_suffix n (p # rest) = Inl TypeError"
  by (simp add: process_part_def)

lemma emit_new_placeholder:
  "inline_data p = Some b \<Longrightarrow> is_placeholder_missing (p # rest) 0 \<Longrightarrow> data b = Some d \<Longrightarrow>
   emit_suffix n (p # rest) =
     (case emit_suffix n rest of Inl e \<Rightarrow> Inl e
      | Inr out \<Rightarrow> Inr ((if n \<le> 3 then [p] else []) @ text_part (placeholder d) # out))"
  by (simp add: process_part_def split: sum.splits)

lemma emit_old_placeholder:
  "inline_data p = Some b \<Longrightarrow> \<not> is_placeholder_missing (p # rest) 0 \<Longrightarrow>
   emit_suffix n (p # rest) =
     (case emit_suffix n rest of Inl e \<Rightarrow> Inl e
      | Inr out \<Rightarrow> Inr ((if n \<le> 3 then [p] else []) @ out))"
  by (simp add: process_part_def split: sum.splits)

declare emit_suffix.simps(2) [simp del]

text \<open>The cases of one step, as an elimination rule.\<close>

lemma emit_cases [consumes 1, case_names plain fresh old]:
  assumes "emit_suffix n (p # rest) = Inr out"
  obtains
    (plain) out' where "inline_data p = None" "emit_suffix n rest = Inr out'" "out = p # out'"
  | (fresh) b d out' where "inline_data p = Some b" "is_placeholder_missing (p # rest) 0"
      "data b = Some d" "emit_suffix n rest = Inr out'"
      "out = (if n \<le> 3 then [p] else []) @ text_part (placeholder d) # out'"
  | (old) b out' where "inline_data p = Some b" "\<not> is_placeholder_missing (p # rest) 0"
      "emit_suffix n rest = Inr out'" "out = (if n \<le> 3 then [p] else []) @ out'"
proof (cases "inline_data p")
  case None
  then show ?thesis using assms plain by (auto simp: emit_plain split: sum.splits)
next
  case (Some b)
  show ?thesis
  proof (cases "is_placeholder_missing (p # rest) 0")
    case True
    show ?thesis
    proof (cases "data b")
      case None
      then show ?thesis using assms Some True by (simp add: emit_no_payload)
    next
      case (Some d)
      then show ?thesis using assms \<open>inline_data p = Some b\<close> True fresh [of b d]
        by (auto simp: emit_new_placeholder split: sum.splits)
    qed
  next
    case False
    then show ?thesis using assms Some old [of b]
      by (auto simp: emit_old_placeholder split: sum.splits)
  qed
qed

lemma text_part_simps:
  "inline_data (text_part t) = None" "part_text (text_part t) = Some t"
  "function_response (text_part t) = None"
  by (simp_all add: text_part_def)

lemma startswith_placeholder: "startswith (placeholder d) (lit ''[IMAGE-ID '')"
  by (simp add: placeholder_def startswith_def)

lemma is_placeholder_text_part: "is_placeholder (text_part (placeholder d))"
  by (simp add: is_placeholder_def text_part_simps startswith_placeholder)

lemma not_binary_text_part: "\<not> has_binary (text_part t)"
  by (simp add: has_binary_def text_part_simps)

lemma emit_nonempty: "emit_suffix n ps = Inr out \<Longrightarrow> ps \<noteq> [] \<Longrightarrow> out \<noteq> []"
proof (induction ps arbitrary: out)
  case Nil
  then show ?case by simp
next
  case (Cons p rest)
  from Cons.prems(1) show ?case
  proof (cases rule: emit_cases)
    case (old b out')
    then have "rest \<noteq> []" by (auto simp: missing_Cons0)
    then show ?thesis using Cons.IH old by auto
  qed auto
qed

lemma emit_keeps_head:
  "emit_suffix n (p # rest) = Inr out \<Longrightarrow> n \<le> 3 \<Longrightarrow> \<exists>r. out = p # r"
  by (erule emit_cases) auto

lemma emit_placeholder_head:
  "emit_suffix n (q # rest) = Inr out \<Longrightarrow> is_placeholder q \<Longrightarrow> out \<noteq> [] \<and> is_placeholder (hd out)"
proof (induction rest arbitrary: q out)
  case Nil
  from Nil.prems(1) show ?case
    using Nil.prems(2) by (cases rule: emit_cases) (auto simp: is_placeholder_text_part missing_Cons0)
next
  case (Cons q' rest)
  from Cons.prems(1) show ?case
  proof (cases rule: emit_cases)
    case (plain out')
    then show ?thesis using Cons.prems(2) by simp
  next
    case (fresh b d out')
    then show ?thesis using Cons.prems(2) by (auto simp: is_placeholder_text_part)
  next
    case (old b out')
    then have "is_placeholder q'" by (simp add: missing_Cons0)
    then have "out' \<noteq> [] \<and> is_placeholder (hd out')" using Cons.IH old by blast
    then show ?thesis using old Cons.prems(2) by auto
  qed
qed

lemma emit_fixpoint:
  "emit_suffix n ps = Inr out \<Longrightarrow> n \<le> 3 \<Longrightarrow> k \<le> 3 \<Longrightarrow> emit_suffix k out = Inr out"
proof (induction ps arbitrary: out)
  case Nil
  then show ?case by simp
next
  case (Cons p rest)
  from Cons.prems(1) show ?case
  proof (cases rule: emit_cases)
    case (plain out')
    then show ?thesis using Cons by (simp add: emit_plain)
  next
    case (fresh b d out')
    have "emit_suffix k out' = Inr out'" using Cons fresh by simp
    then have "emit_suffix k (text_part (placeholder d) # out') = Inr (text_part (placeholder d) # out')"
      by (simp add: emit_plain text_part_simps)
    moreover have "\<not> is_placeholder_missing (p # text_part (placeholder d) # out') 0"
      by (simp add: missing_Cons0 is_placeholder_text_part)
    ultimately show ?thesis using fresh Cons.prems
      by (simp add: emit_old_placeholder)
  next
    case (old b out')
    then obtain q rest' where r: "rest = q # rest'" "is_placeholder q"
      by (auto simp: missing_Cons0 split: list.splits)
    then obtain r' where "out' = q # r'" using emit_keeps_head old Cons.prems by blast
    then have "\<not> is_placeholder_missing (p # out') 0" using r by (simp add: missing_Cons0)
    moreover have "emit_suffix k out' = Inr out'" using Cons old by simp
    ultimately show ?thesis using old Cons.prems by (simp add: emit_old_placeholder)
  qed
qed

lemma emit_drops_binaries:
  "emit_suffix n ps = Inr out \<Longrightarrow> \<not> n \<le> 3 \<Longrightarrow> \<forall>q \<in> set out. \<not> has_binary q"
proof (induction ps arbitrary: out)
  case Nil
  then show ?case by simp
next
  case (Cons p rest)
  from Cons.prems(1) show ?case
    using Cons.IH Cons.prems(2)
    by (cases rule: emit_cases) (auto simp: has_binary_def text_part_simps)
qed

lemma emit_binary_free:
  "\<forall>q \<in> set ps. \<not> has_binary q \<Longrightarrow> emit_suffix n ps = Inr ps"
  by (induction ps) (auto simp: has_binary_def emit_plain)

lemma has_binary_None: "inline_data p = None \<Longrightarrow> \<not> has_binary p"
  by (simp add: has_binary_def)

lemma has_binary_Some: "inline_data p = Some b \<Longrightarrow> has_binary p"
  by (simp add: has_binary_def)

lemma emit_filter_binary:
  "emit_suffix n ps = Inr out \<Longrightarrow>
   filter has_binary out = (if n \<le> 3 then filter has_binary ps else [])"
proof (induction ps arbitrary: out)
  case Nil
  then show ?case by simp
next
  case (Cons p rest)
  from Cons.prems(1) show ?case
    using Cons.IH
    by (cases rule: emit_cases)
       (auto simp: has_binary_None has_binary_Some not_binary_text_part)
qed

lemma payloads_present_Nil: "payloads_present []"
  by (simp add: payloads_present_def)

lemma payloads_present_Cons:
  "payloads_present (p # rest) \<longleftrightarrow>
     (has_binary p \<and> is_placeholder_missing (p # rest) 0 \<longrightarrow> payload p \<noteq> None)
     \<and> payloads_present rest"
proof -
  have "(\<forall>idx < Suc (length rest). P idx) \<longleftrightarrow> P 0 \<and> (\<forall>idx < length rest. P (Suc idx))" for P
    by (metis less_Suc_eq_0_disj)
  then show ?thesis
    unfolding payloads_present_def by (simp add: missing_Cons_Suc)
qed

lemma emit_returns_iff: "(\<exists>out. emit_suffix n ps = Inr out) \<longleftrightarrow> payloads_present ps"
proof (induction ps)
  case Nil
  then show ?case by (simp add: payloads_present_Nil)
next
  case (Cons p rest)
  show ?case
  proof (cases "inline_data p")
    case None
    then show ?thesis using Cons
      by (auto simp: payloads_present_Cons emit_plain has_binary_def split: sum.splits)
  next
    case (Some b)
    show ?thesis
    proof (cases "is_placeholder_missing (p # rest) 0")
      case True
      then show ?thesis using Cons Some
        by (cases "data b")
           (auto simp: payloads_present_Cons emit_new_placeholder emit_no_payload has_binary_def
              payload_def split: sum.splits)
    next
      case False
      then show ?thesis using Cons Some
        by (auto simp: payloads_present_Cons emit_old_placeholder has_binary_def split: sum.splits)
    qed
  qed
qed

lemma emit_error_is_TypeError: "emit_suffix n ps = Inl e \<Longrightarrow> e = TypeError"
proof (induction ps)
  case Nil
  then show ?case by simp
next
  case (Cons p rest)
  then show ?case
    by (auto simp: emit_suffix.simps(2) process_part_def Let_def split: sum.splits option.splits if_splits)
qed

lemma emit_independent_of_count:
  "(\<exists>out. emit_suffix n ps = Inr out) \<longleftrightarrow> (\<exists>out. emit_suffix k ps = Inr out)"
  by (simp add: emit_returns_iff)

lemma emit_parts_origin:
  "emit_suffix n ps = Inr out \<Longrightarrow> q \<in> set out \<Longrightarrow>
   q \<in> set ps \<or> (\<exists>p \<in> set ps. \<exists>d. payload p = Some d \<and> q = text_part (placeholder d))"
proof (induction ps arbitrary: out)
  case Nil
  then show ?case by simp
next
  case (Cons p rest)
  from Cons.prems(1) show ?case
  proof (cases rule: emit_cases)
    case (plain out')
    then show ?thesis using Cons.IH [of out'] Cons.prems(2) by auto
  next
    case (fresh b d out')
    have "payload p = Some d" using fresh by (simp add: payload_def)
    then show ?thesis using Cons.IH [of out'] Cons.prems(2) fresh
      by (auto split: if_splits)
  next
    case (old b out')
    then show ?thesis using Cons.IH [of out'] Cons.prems(2) by (auto split: if_splits)
  qed
qed

section \<open>The traversal of the history\<close>

lemma is_manual_query_cases:
  "is_manual_query c = Inl IndexError \<or> is_manual_query c = Inr True \<or> is_manual_query c = Inr False"
  by (auto simp: is_manual_query_def getitem_def)

lemma is_manual_query_error_iff:
  "(\<exists>e. is_manual_query c = Inl e) \<longleftrightarrow> role c = Some (lit ''user'') \<and> parts c = []"
  by (auto simp: is_manual_query_def getitem_def)

lemma not_countable_iff:
  "is_manual_query c = Inr False \<longleftrightarrow>
     role c \<noteq> Some (lit ''user'') \<or> (parts c \<noteq> [] \<and> function_response (hd (parts c)) \<noteq> None)"
  by (cases "parts c") (auto simp: is_manual_query_def getitem_def)

lemma countable_iff:
  "countable c \<longleftrightarrow>
     role c = Some (lit ''user'') \<and> parts c \<noteq> [] \<and> function_response (hd (parts c)) = None"
  by (cases "parts c") (auto simp: countable_def is_manual_query_def getitem_def)

lemma manual_queries_simps:
  "manual_queries [] = 0"
  "manual_queries (c # cs) = (if countable c then Suc (manual_queries cs) else manual_queries cs)"
  "manual_queries (xs @ ys) = manual_queries xs + manual_queries ys"
  "manual_queries (rev xs) = manual_queries xs"
  by (simp_all add: manual_queries_def rev_filter [symmetric])

lemma process_contents_length:
  "process_contents n cs = Inr cs' \<Longrightarrow> length cs' = length cs"
  by (induction cs arbitrary: n cs') (auto split: sum.splits bool.splits)

lemma process_contents_append:
  "process_contents n (as @ bs) =
     (case process_contents n as of
        Inl e \<Rightarrow> Inl e
      | Inr as' \<Rightarrow>
          (case process_contents (n + manual_queries as) bs of
             Inl e \<Rightarrow> Inl e
           | Inr bs' \<Rightarrow> Inr (as' @ bs')))"
proof (induction as arbitrary: n)
  case Nil
  then show ?case by (simp add: manual_queries_simps split: sum.splits)
next
  case (Cons c as)
  show ?case
    using is_manual_query_cases [of c]
  proof (elim disjE)
    assume "is_manual_query c = Inl IndexError"
    then show ?thesis by simp
  next
    assume t: "is_manual_query c = Inr True"
    then have "countable c" by (simp add: countable_def)
    then show ?thesis using t Cons.IH [of "n + 1"]
      by (simp add: manual_queries_simps split: sum.splits)
  next
    assume f: "is_manual_query c = Inr False"
    then have "\<not> countable c" by (simp add: countable_def)
    then show ?thesis using f Cons.IH [of n]
      by (simp add: manual_queries_simps split: sum.splits)
  qed
qed

lemma compact_from_append:
  "compact_from n (xs @ ys) =
     (case compact_from n ys of
        Inl e \<Rightarrow> Inl e
      | Inr ys' \<Rightarrow>
          (case compact_from (n + manual_queries ys) xs of
             Inl e \<Rightarrow> Inl e
           | Inr xs' \<Rightarrow> Inr (xs' @ ys')))"
  by (simp add: compact_from_def process_contents_append manual_queries_simps split: sum.splits)

lemma compact_from_Nil: "compact_from n [] = Inr []"
  by (simp add: compact_from_def)

lemma compact_from_single:
  "compact_from n [c] =
     (case is_manual_query c of
        Inl e \<Rightarrow> Inl e
      | Inr False \<Rightarrow> Inr [c]
      | Inr True \<Rightarrow>
          (case process_parts (Suc n) (parts c) of
             Inl e \<Rightarrow> Inl e
           | Inr ps' \<Rightarrow> Inr [c\<lparr>parts := ps'\<rparr>]))"
  by (simp add: compact_from_def split: sum.splits bool.splits)

lemma compact_from_Cons:
  "compact_from n (c # ys) =
     (case compact_from n ys of
        Inl e \<Rightarrow> Inl e
      | Inr ys' \<Rightarrow>
          (case compact_from (n + manual_queries ys) [c] of
             Inl e \<Rightarrow> Inl e
           | Inr c' \<Rightarrow> Inr (c' @ ys')))"
  using compact_from_append [of n "[c]" ys] by simp

lemma compact_from_length:
  "compact_from n h = Inr h' \<Longrightarrow> length h' = length h"
  by (auto simp: compact_from_def process_contents_length split: sum.splits)

lemma recency_simps:
  "recency (c # h) 0 = manual_queries (c # h)"
  "recency (c # h) (Suc i) = recency h i"
  by (simp_all add: recency_def)

text \<open>What the traversal leaves at each position.\<close>

lemma compact_from_nth:
  assumes "compact_from n h = Inr h'" and "i < length h"
  shows "(countable (h ! i) \<longrightarrow>
            process_parts (n + recency h i) (parts (h ! i)) = Inr (parts (h' ! i))
            \<and> h' ! i = (h ! i)\<lparr>parts := parts (h' ! i)\<rparr>)
         \<and> (\<not> countable (h ! i) \<longrightarrow> h' ! i = h ! i)"
  using assms
proof (induction h arbitrary: h' i)
  case Nil
  then show ?case by simp
next
  case (Cons c h)
  have "(case compact_from n h of
           Inl e \<Rightarrow> Inl e
         | Inr ys' \<Rightarrow>
             (case compact_from (n + manual_queries h) [c] of
                Inl e \<Rightarrow> Inl e
              | Inr c' \<Rightarrow> Inr (c' @ ys'))) = Inr h'"
    using Cons.prems(1) by (simp only: compact_from_Cons [of n c h])
  then obtain ys' c' where
    ys: "compact_from n h = Inr ys'" and c': "compact_from (n + manual_queries h) [c] = Inr c'"
    and h': "h' = c' @ ys'"
    by (auto split: sum.splits)
  have lc: "length c' = 1" using compact_from_length [OF c'] by simp
  then obtain x where x: "c' = [x]" by (cases c') auto
  show ?case
  proof (cases i)
    case 0
    show ?thesis
    proof (cases "countable c")
      case True
      then have t: "is_manual_query c = Inr True" by (simp add: countable_def)
      from c' obtain ps' where ps': "process_parts (Suc (n + manual_queries h)) (parts c) = Inr ps'"
        and xc: "c' = [c\<lparr>parts := ps'\<rparr>]"
        unfolding compact_from_single t by (auto split: sum.splits)
      have r: "n + recency (c # h) 0 = Suc (n + manual_queries h)"
        using True by (simp add: recency_simps manual_queries_simps)
      have e: "h' ! 0 = c\<lparr>parts := ps'\<rparr>" using h' xc by simp
      have "parts (h' ! 0) = ps'" unfolding e by simp
      then show ?thesis using 0 True ps' r e by simp
    next
      case False
      then have "is_manual_query c = Inr False"
        using is_manual_query_cases [of c] c' by (auto simp: countable_def compact_from_single)
      then have "c' = [c]" using c' by (simp add: compact_from_single)
      then show ?thesis using h' 0 False by simp
    qed
  next
    case (Suc j)
    then have "j < length h" using Cons.prems(2) by simp
    from Cons.IH [OF ys this] show ?thesis using Suc h' x by (simp add: recency_simps)
  qed
qed

lemma process_parts_returns_iff:
  "(\<exists>out. process_parts n ps = Inr out) \<longleftrightarrow> payloads_present ps"
  by (simp add: process_parts_suffix emit_returns_iff)

lemma compact_from_single_returns_iff:
  "(\<exists>r. compact_from n [c] = Inr r) \<longleftrightarrow>
     (role c = Some (lit ''user'') \<longrightarrow> parts c \<noteq> []) \<and> (countable c \<longrightarrow> payloads_present (parts c))"
proof -
  consider "is_manual_query c = Inl IndexError" | "is_manual_query c = Inr True"
    | "is_manual_query c = Inr False"
    using is_manual_query_cases by blast
  then show ?thesis
  proof cases
    case 1
    then have "role c = Some (lit ''user'') \<and> parts c = []"
      using is_manual_query_error_iff [of c] by auto
    then show ?thesis using 1 by (simp add: compact_from_single)
  next
    case 2
    then have "\<not> (role c = Some (lit ''user'') \<and> parts c = [])"
      using is_manual_query_error_iff [of c] by auto
    moreover have "countable c" using 2 by (simp add: countable_def)
    ultimately show ?thesis
      using 2 process_parts_returns_iff [of "Suc n" "parts c"]
      by (auto simp: compact_from_single split: sum.splits)
  next
    case 3
    then have "\<not> (role c = Some (lit ''user'') \<and> parts c = [])"
      using is_manual_query_error_iff [of c] by auto
    moreover have "\<not> countable c" using 3 by (simp add: countable_def)
    ultimately show ?thesis using 3 by (auto simp: compact_from_single)
  qed
qed

lemma runs_ok_Cons:
  "runs_ok (c # h) \<longleftrightarrow>
     ((role c = Some (lit ''user'') \<longrightarrow> parts c \<noteq> []) \<and> (countable c \<longrightarrow> payloads_present (parts c)))
     \<and> runs_ok h"
  by (simp add: runs_ok_def)

lemma compact_from_returns_iff:
  "(\<exists>h'. compact_from n h = Inr h') \<longleftrightarrow> runs_ok h"
proof (induction h)
  case Nil
  then show ?case by (simp add: compact_from_Nil runs_ok_def)
next
  case (Cons c h)
  show ?case
  proof (cases "compact_from n h")
    case (Inl e)
    then have "\<not> runs_ok h" using Cons by simp
    then show ?thesis unfolding compact_from_Cons [of n c h] using Inl by (simp add: runs_ok_Cons)
  next
    case (Inr ys')
    then have ok: "runs_ok h" using Cons by auto
    have "(\<exists>h'. compact_from n (c # h) = Inr h')
          \<longleftrightarrow> (\<exists>r. compact_from (n + manual_queries h) [c] = Inr r)"
      unfolding compact_from_Cons [of n c h] using Inr by (auto split: sum.splits)
    then show ?thesis
      using ok compact_from_single_returns_iff [of "n + manual_queries h" c]
      by (simp add: runs_ok_Cons)
  qed
qed

section \<open>Properties of modify_image_data_in_history\<close>

subsection \<open>Evaluating the callback on concrete histories\<close>

lemma scenario_part_simps:
  "inline_data (image_part d) = Some \<lparr>data = Some d, mime_type = Some (lit ''image/jpeg'')\<rparr>"
  "function_response (image_part d) = None"
  "inline_data (tool_result_part f) = None"
  "function_response (tool_result_part f) = Some (FunctionResponse f)"
  "\<not> is_placeholder (image_part d)"
  "\<not> is_placeholder (tool_result_part f)"
  "has_binary (image_part d)"
  "\<not> has_binary (tool_result_part f)"
  "payload (image_part d) = Some d"
  by (simp_all add: image_part_def tool_result_part_def is_placeholder_def has_binary_def payload_def)

lemma scenario_turn_simps:
  "role (user_turn ps) = Some (lit ''user'')" "parts (user_turn ps) = ps"
  "role (model_turn ps) = Some (lit ''model'')" "parts (model_turn ps) = ps"
  "(user_turn ps)\<lparr>parts := ps'\<rparr> = user_turn ps'"
  by (simp_all add: user_turn_def model_turn_def)

lemma is_manual_query_user_turn:
  "is_manual_query (user_turn (p # ps)) = Inr (function_response p = None)"
  "is_manual_query (user_turn []) = Inl IndexError"
  by (simp_all add: is_manual_query_def user_turn_def getitem_def)

lemma is_manual_query_model_turn: "is_manual_query (model_turn ps) = Inr False"
  by (simp add: is_manual_query_def model_turn_def lit_def)

lemma process_parts_image_last:
  "process_parts n [image_part d] =
     Inr ((if n \<le> 3 then [image_part d] else []) @ [text_part (placeholder d)])"
  by (simp add: process_parts_suffix emit_new_placeholder [where d = d] scenario_part_simps
      missing_Cons0)

lemma process_parts_image_placeholder:
  "process_parts n [image_part d, text_part (placeholder d')] =
     Inr ((if n \<le> 3 then [image_part d] else []) @ [text_part (placeholder d')])"
  by (simp add: process_parts_suffix emit_old_placeholder emit_plain scenario_part_simps
      missing_Cons0 is_placeholder_text_part text_part_simps)

lemma process_parts_text_only:
  "process_parts n [text_part t] = Inr [text_part t]"
  by (simp add: process_parts_suffix emit_plain text_part_simps)

lemmas run_simps =
  modify_image_data_in_history_def compact_from_def scenario_turn_simps scenario_part_simps
  is_manual_query_user_turn is_manual_query_model_turn process_parts_image_last
  process_parts_image_placeholder process_parts_text_only text_part_simps


subsection \<open>Turns the traversal does not count\<close>

lemma compact_from_skip:
  assumes "is_manual_query c = Inr False"
  shows "compact_from n (xs @ c # ys) =
     (case compact_from n (xs @ ys) of
        Inl e \<Rightarrow> Inl e
      | Inr r \<Rightarrow> Inr (take (length xs) r @ c # drop (length xs) r))"
proof -
  have nc: "\<not> countable c" using assms by (simp add: countable_def)
  have one: "compact_from k [c] = Inr [c]" for k
    using assms by (simp add: compact_from_single)
  have cy: "compact_from n (c # ys) =
      (case compact_from n ys of Inl e \<Rightarrow> Inl e | Inr ys' \<Rightarrow> Inr (c # ys'))"
    unfolding compact_from_Cons [of n c ys] by (simp add: one split: sum.splits)
  show ?thesis
  proof (cases "compact_from n ys")
    case (Inl e)
    then show ?thesis using cy by (simp add: compact_from_append [of n xs])
  next
    case ys': (Inr ys')
    show ?thesis
    proof (cases "compact_from (n + manual_queries ys) xs")
      case (Inl e)
      then show ?thesis using cy ys' nc
        by (simp add: compact_from_append [of n xs] manual_queries_simps)
    next
      case (Inr xs')
      have "length xs' = length xs" using compact_from_length [OF Inr] .
      then show ?thesis using cy ys' nc Inr
        by (simp add: compact_from_append [of n xs] manual_queries_simps)
    qed
  qed
qed

text \<open>
  C5: a turn that is not a countable user turn (its role is not \<open>user\<close>, or its first
  part is a function response) is left as it is, binaries included, and is not counted:
  the callback treats the history with the turn exactly as the history without it, and
  puts the turn back unchanged at its position.
\<close>

theorem non_countable_turn_untouched:
  assumes "role c \<noteq> Some (lit ''user'')
           \<or> (parts c \<noteq> [] \<and> function_response (hd (parts c)) \<noteq> None)"
  shows "modify_image_data_in_history (xs @ c # ys) =
     (case modify_image_data_in_history (xs @ ys) of
        Inl e \<Rightarrow> Inl e
      | Inr r \<Rightarrow> Inr (take (length xs) r @ c # drop (length xs) r))"
proof -
  have "is_manual_query c = Inr False" using assms by (simp add: not_countable_iff)
  then show ?thesis
    unfolding modify_image_data_in_history_def by (rule compact_from_skip)
qed

text \<open>
  Scenario D: a tool-result turn with role \<open>user\<close> that carries an image, among five
  countable turns, keeps its image; the five are treated as if it were not there.
\<close>

theorem non_countable_turn_untouched_witness:
  "parts (user_turn [tool_result_part (lit ''analyze''), image_part [9]]) \<noteq> []
   \<and> function_response (hd (parts (user_turn [tool_result_part (lit ''analyze''), image_part [9]]))) \<noteq> None
   \<and> modify_image_data_in_history
        ([user_turn [image_part [1]], user_turn [image_part [2]]]
         @ user_turn [tool_result_part (lit ''analyze''), image_part [9]]
         # [user_turn [image_part [3]], user_turn [image_part [4]], user_turn [image_part [5]]])
     = Inr [user_turn [text_part (placeholder [1])], user_turn [text_part (placeholder [2])],
            user_turn [tool_result_part (lit ''analyze''), image_part [9]],
            user_turn [image_part [3], text_part (placeholder [3])],
            user_turn [image_part [4], text_part (placeholder [4])],
            user_turn [image_part [5], text_part (placeholder [5])]]"
proof -
  let ?c = "user_turn [tool_result_part (lit ''analyze''), image_part [9]]"
  have h: "role ?c \<noteq> Some (lit ''user'')
           \<or> (parts ?c \<noteq> [] \<and> function_response (hd (parts ?c)) \<noteq> None)"
    by (simp add: scenario_turn_simps scenario_part_simps)
  have r: "modify_image_data_in_history
        ([user_turn [image_part [1]], user_turn [image_part [2]]]
         @ [user_turn [image_part [3]], user_turn [image_part [4]], user_turn [image_part [5]]])
     = Inr [user_turn [text_part (placeholder [1])], user_turn [text_part (placeholder [2])],
            user_turn [image_part [3], text_part (placeholder [3])],
            user_turn [image_part [4], text_part (placeholder [4])],
            user_turn [image_part [5], text_part (placeholder [5])]]"
    by (simp add: run_simps)
  show ?thesis
    using non_countable_turn_untouched [OF h,
        of "[user_turn [image_part [1]], user_turn [image_part [2]]]"
           "[user_turn [image_part [3]], user_turn [image_part [4]], user_turn [image_part [5]]]"]
    unfolding r by (simp add: scenario_turn_simps scenario_part_simps)
qed

subsection \<open>Running the callback again\<close>

lemma process_parts_nonempty:
  "process_parts n ps = Inr out \<Longrightarrow> ps \<noteq> [] \<Longrightarrow> out \<noteq> []"
  by (simp add: process_parts_suffix emit_nonempty)

lemma process_parts_keeps_head:
  "process_parts n ps = Inr out \<Longrightarrow> n \<le> 3 \<Longrightarrow> ps \<noteq> [] \<Longrightarrow> out \<noteq> [] \<and> hd out = hd ps"
  using emit_keeps_head [of n "hd ps" "tl ps" out]
  by (cases ps) (auto simp: process_parts_suffix)

lemma is_manual_query_parts_update:
  "ps' \<noteq> [] \<Longrightarrow> parts c \<noteq> [] \<Longrightarrow> function_response (hd ps') = function_response (hd (parts c))
   \<Longrightarrow> is_manual_query (c\<lparr>parts := ps'\<rparr>) = is_manual_query c"
  by (cases ps'; cases "parts c") (auto simp: is_manual_query_def getitem_def)

lemma is_manual_query_nonempty:
  "parts c \<noteq> [] \<Longrightarrow> is_manual_query c = Inr True \<or> is_manual_query c = Inr False"
  using is_manual_query_cases [of c] is_manual_query_error_iff [of c] by auto

lemma process_contents_idem:
  "process_contents n cs = Inr cs' \<Longrightarrow> m = n \<or> 3 \<le> n \<Longrightarrow> process_contents m cs' = Inr cs'"
proof (induction cs arbitrary: n m cs')
  case Nil
  then show ?case by simp
next
  case (Cons c cs)
  consider "is_manual_query c = Inl IndexError" | "is_manual_query c = Inr True"
    | "is_manual_query c = Inr False"
    using is_manual_query_cases by blast
  then show ?case
  proof cases
    case 1
    then show ?thesis using Cons.prems by simp
  next
    case 3
    then obtain cs0 where cs0: "process_contents n cs = Inr cs0" "cs' = c # cs0"
      using Cons.prems(1) by (auto split: sum.splits)
    have "process_contents m cs0 = Inr cs0" using Cons.IH [OF cs0(1) Cons.prems(2)] .
    then show ?thesis using cs0 3 by simp
  next
    case 2
    then obtain ps' cs0 where ps': "process_parts (n + 1) (parts c) = Inr ps'"
      and cs0: "process_contents (n + 1) cs = Inr cs0" and cs': "cs' = c\<lparr>parts := ps'\<rparr> # cs0"
      using Cons.prems(1) by (auto split: sum.splits)
    have ne: "parts c \<noteq> []" using 2 is_manual_query_error_iff [of c]
      by (auto simp: is_manual_query_def getitem_def split: if_splits)
    have ne': "ps' \<noteq> []" using process_parts_nonempty [OF ps' ne] .
    let ?c2 = "c\<lparr>parts := ps'\<rparr>"
    have upd: "?c2\<lparr>parts := ps'\<rparr> = ?c2" by simp
    show ?thesis
    proof (cases "n + 1 \<le> 3")
      case True
      then have mn: "m = n" using Cons.prems(2) by simp
      have hd: "hd ps' = hd (parts c)" using process_parts_keeps_head [OF ps' True ne] by simp
      have q: "is_manual_query ?c2 = Inr True"
        using is_manual_query_parts_update [OF ne' ne] hd 2 by simp
      have fp: "process_parts (m + 1) ps' = Inr ps'"
        using emit_fixpoint [of "n + 1" "parts c" ps' "m + 1"] ps' True mn
        by (simp add: process_parts_suffix)
      have "process_contents (m + 1) cs0 = Inr cs0"
        using Cons.IH [OF cs0, of "m + 1"] mn by simp
      then show ?thesis unfolding cs' using q fp upd by simp
    next
      case False
      then have nb: "\<forall>q \<in> set ps'. \<not> has_binary q"
        using emit_drops_binaries [of "n + 1" "parts c" ps'] ps'
        by (simp add: process_parts_suffix)
      then have fp: "process_parts k ps' = Inr ps'" for k
        by (simp add: process_parts_suffix emit_binary_free)
      have ih: "process_contents k cs0 = Inr cs0" for k
        using Cons.IH [OF cs0, of k] False by simp
      have "parts ?c2 \<noteq> []" using ne' by simp
      then consider "is_manual_query ?c2 = Inr True" | "is_manual_query ?c2 = Inr False"
        using is_manual_query_nonempty by blast
      then show ?thesis
      proof cases
        case 1
        then show ?thesis unfolding cs' using fp ih upd by simp
      next
        case 2
        then show ?thesis unfolding cs' using ih by simp
      qed
    qed
  qed
qed

text \<open>
  C2: the callback is idempotent. When a run returns a history, a second run on that
  history returns it unchanged: no second placeholder is inserted and none is changed.
\<close>

theorem compactor_idempotent:
  assumes "modify_image_data_in_history h = Inr h'"
  shows "modify_image_data_in_history h' = Inr h'"
proof -
  from assms obtain cs' where cs': "process_contents 0 (rev h) = Inr cs'" and h': "h' = rev cs'"
    by (auto simp: modify_image_data_in_history_def compact_from_def split: sum.splits)
  have "process_contents 0 cs' = Inr cs'" using process_contents_idem [OF cs', of 0] by simp
  then show ?thesis
    by (simp add: modify_image_data_in_history_def compact_from_def h')
qed

text \<open>Scenario B: the output of Scenario A, run again, is the output of Scenario A.\<close>

theorem compactor_idempotent_witness:
  "modify_image_data_in_history
     [user_turn [image_part [1]], user_turn [image_part [2]], user_turn [image_part [3]],
      user_turn [image_part [4]], user_turn [image_part [5]]] =
   Inr [user_turn [text_part (placeholder [1])], user_turn [text_part (placeholder [2])],
        user_turn [image_part [3], text_part (placeholder [3])],
        user_turn [image_part [4], text_part (placeholder [4])],
        user_turn [image_part [5], text_part (placeholder [5])]]
   \<and> modify_image_data_in_history
       [user_turn [text_part (placeholder [1])], user_turn [text_part (placeholder [2])],
        user_turn [image_part [3], text_part (placeholder [3])],
        user_turn [image_part [4], text_part (placeholder [4])],
        user_turn [image_part [5], text_part (placeholder [5])]] =
   Inr [user_turn [text_part (placeholder [1])], user_turn [text_part (placeholder [2])],
        user_turn [image_part [3], text_part (placeholder [3])],
        user_turn [image_part [4], text_part (placeholder [4])],
        user_turn [image_part [5], text_part (placeholder [5])]]"
proof -
  have a: "modify_image_data_in_history
     [user_turn [image_part [1]], user_turn [image_part [2]], user_turn [image_part [3]],
      user_turn [image_part [4]], user_turn [image_part [5]]] =
   Inr [user_turn [text_part (placeholder [1])], user_turn [text_part (placeholder [2])],
        user_turn [image_part [3], text_part (placeholder [3])],
        user_turn [image_part [4], text_part (placeholder [4])],
        user_turn [image_part [5], text_part (placeholder [5])]]"
    by (simp add: run_simps)
  show ?thesis using a compactor_idempotent [OF a] by simp
qed

subsection \<open>Which turns keep their images\<close>

lemma modify_returns: "runs_ok h \<Longrightarrow> \<exists>h'. modify_image_data_in_history h = Inr h'"
  by (simp add: modify_image_data_in_history_def compact_from_returns_iff)

lemma modify_nth:
  assumes "modify_image_data_in_history h = Inr h'" and "i < length h" and "countable (h ! i)"
  shows "process_parts (recency h i) (parts (h ! i)) = Inr (parts (h' ! i))"
  using compact_from_nth [of 0 h h' i] assms
  by (simp add: modify_image_data_in_history_def)

lemma modify_length:
  "modify_image_data_in_history h = Inr h' \<Longrightarrow> length h' = length h"
  by (simp add: modify_image_data_in_history_def compact_from_length)

lemma process_parts_filter_binary:
  "process_parts n ps = Inr out \<Longrightarrow>
   filter has_binary out = (if n \<le> 3 then filter has_binary ps else [])"
  by (simp add: process_parts_suffix emit_filter_binary)

lemma countable_user_turn:
  "countable (user_turn (p # ps)) \<longleftrightarrow> function_response p = None"
  "\<not> countable (model_turn ps)"
  by (simp_all add: countable_def is_manual_query_user_turn is_manual_query_model_turn)

lemma runs_ok_Nil: "runs_ok []"
  by (simp add: runs_ok_def)

lemmas wf_simps =
  runs_ok_Cons runs_ok_Nil payloads_present_Cons payloads_present_Nil countable_user_turn
  scenario_turn_simps scenario_part_simps text_part_simps not_binary_text_part

text \<open>
  C8: every countable user turn is counted, with or without images. A countable turn is
  processed with the counter equal to its recency, the number of countable turns from it
  to the newest, and its binaries stay exactly when that number is at most 3.
\<close>

theorem counter_counts_every_manual_turn:
  assumes "runs_ok h"
  shows "\<exists>h'. modify_image_data_in_history h = Inr h' \<and> length h' = length h \<and>
     (\<forall>i < length h. countable (h ! i) \<longrightarrow>
        process_parts (recency h i) (parts (h ! i)) = Inr (parts (h' ! i)) \<and>
        filter has_binary (parts (h' ! i)) =
          (if recency h i \<le> 3 then filter has_binary (parts (h ! i)) else []))"
proof -
  obtain h' where h': "modify_image_data_in_history h = Inr h'"
    using modify_returns [OF assms] by blast
  have "process_parts (recency h i) (parts (h ! i)) = Inr (parts (h' ! i)) \<and>
        filter has_binary (parts (h' ! i)) =
          (if recency h i \<le> 3 then filter has_binary (parts (h ! i)) else [])"
    if "i < length h" "countable (h ! i)" for i
    using modify_nth [OF h' that] process_parts_filter_binary by blast
  then show ?thesis using h' modify_length [OF h'] by blast
qed

text \<open>
  One image followed by three manual turns without images: the image turn is the fourth
  most recent countable turn and loses its payload, although it is the only turn with
  an image.
\<close>

theorem counter_counts_every_manual_turn_witness:
  "runs_ok [user_turn [image_part [1]], user_turn [text_part (lit ''a'')],
            user_turn [text_part (lit ''b'')], user_turn [text_part (lit ''c'')]]
   \<and> recency [user_turn [image_part [1]], user_turn [text_part (lit ''a'')],
            user_turn [text_part (lit ''b'')], user_turn [text_part (lit ''c'')]] 0 = 4
   \<and> (\<exists>h'. modify_image_data_in_history
            [user_turn [image_part [1]], user_turn [text_part (lit ''a'')],
             user_turn [text_part (lit ''b'')], user_turn [text_part (lit ''c'')]] = Inr h'
          \<and> filter has_binary (parts (h' ! 0)) = [])
   \<and> modify_image_data_in_history
            [user_turn [image_part [1]], user_turn [text_part (lit ''a'')],
             user_turn [text_part (lit ''b'')], user_turn [text_part (lit ''c'')]]
       = Inr [user_turn [text_part (placeholder [1])], user_turn [text_part (lit ''a'')],
              user_turn [text_part (lit ''b'')], user_turn [text_part (lit ''c'')]]"
proof -
  let ?h = "[user_turn [image_part [1]], user_turn [text_part (lit ''a'')],
             user_turn [text_part (lit ''b'')], user_turn [text_part (lit ''c'')]]"
  have ok: "runs_ok ?h" by (simp add: wf_simps)
  have rec: "recency ?h 0 = 4"
    by (simp add: recency_def manual_queries_simps wf_simps)
  have c0: "countable (?h ! 0)" by (simp add: wf_simps)
  have ev: "modify_image_data_in_history ?h
       = Inr [user_turn [text_part (placeholder [1])], user_turn [text_part (lit ''a'')],
              user_turn [text_part (lit ''b'')], user_turn [text_part (lit ''c'')]]"
    by (simp add: run_simps)
  from counter_counts_every_manual_turn [OF ok] obtain h' where
    h': "modify_image_data_in_history ?h = Inr h'"
    and all: "\<forall>i < length ?h. countable (?h ! i) \<longrightarrow>
        process_parts (recency ?h i) (parts (?h ! i)) = Inr (parts (h' ! i)) \<and>
        filter has_binary (parts (h' ! i)) =
          (if recency ?h i \<le> 3 then filter has_binary (parts (?h ! i)) else [])"
    by blast
  have "filter has_binary (parts (h' ! 0)) = []"
    using all [rule_format, of 0] c0 rec by simp
  then show ?thesis using ok rec h' ev by blast
qed

lemma emit_prefix_plain:
  "\<forall>q \<in> set pre. \<not> has_binary q \<Longrightarrow>
   emit_suffix n (pre @ rest) =
     (case emit_suffix n rest of Inl e \<Rightarrow> Inl e | Inr out \<Rightarrow> Inr (pre @ out))"
  by (induction pre) (auto simp: has_binary_def emit_plain split: sum.splits)

lemma single_binary_split:
  assumes "j < length ps" and "has_binary (ps ! j)" and "length (filter has_binary ps) = 1"
  shows "(\<forall>q \<in> set (take j ps). \<not> has_binary q) \<and> (\<forall>q \<in> set (drop (Suc j) ps). \<not> has_binary q)"
proof -
  have "ps = take j ps @ ps ! j # drop (Suc j) ps"
    using assms(1) by (simp add: id_take_nth_drop)
  then have "filter has_binary ps
      = filter has_binary (take j ps) @ ps ! j # filter has_binary (drop (Suc j) ps)"
    using assms(2) by (metis filter.simps(2) filter_append)
  then have "length (filter has_binary (take j ps)) + length (filter has_binary (drop (Suc j) ps)) = 0"
    using assms(3) by simp
  then show ?thesis by (simp add: filter_empty_conv)
qed

lemma process_parts_single_image:
  assumes j: "j < length ps" and b: "has_binary (ps ! j)"
    and one: "length (filter has_binary ps) = 1" and d: "payload (ps ! j) = Some d"
  shows "process_parts n ps =
     Inr (take j ps @ (if n \<le> 3 then [ps ! j] else [])
          @ (if is_placeholder_missing ps j then [text_part (placeholder d)] else [])
          @ drop (Suc j) ps)"
proof -
  let ?p = "ps ! j" and ?post = "drop (Suc j) ps"
  have free: "\<forall>q \<in> set (take j ps). \<not> has_binary q" "\<forall>q \<in> set ?post. \<not> has_binary q"
    using single_binary_split [OF j b one] by simp_all
  have ps: "ps = take j ps @ ?p # ?post" using j by (simp add: id_take_nth_drop)
  have dr: "drop j ps = ?p # ?post" using j by (simp add: Cons_nth_drop_Suc)
  have post: "emit_suffix n ?post = Inr ?post" using free(2) by (rule emit_binary_free)
  obtain bl where bl: "inline_data ?p = Some bl" using b by (auto simp: has_binary_def)
  then have dat: "data bl = Some d" using d by (simp add: payload_def)
  have m: "is_placeholder_missing (?p # ?post) 0 = is_placeholder_missing ps j"
    using is_placeholder_missing_drop [OF j] dr by simp
  have "emit_suffix n (?p # ?post) =
      Inr ((if n \<le> 3 then [?p] else [])
           @ (if is_placeholder_missing ps j then [text_part (placeholder d)] else []) @ ?post)"
  proof (cases "is_placeholder_missing ps j")
    case True
    then show ?thesis
      using emit_new_placeholder [OF bl _ dat, of ?post n] m post by simp
  next
    case False
    then show ?thesis
      using emit_old_placeholder [OF bl, of ?post n] m post by simp
  qed
  then have "emit_suffix n (take j ps @ ?p # ?post) =
      Inr (take j ps @ (if n \<le> 3 then [?p] else [])
           @ (if is_placeholder_missing ps j then [text_part (placeholder d)] else []) @ ?post)"
    using emit_prefix_plain [OF free(1), of n "?p # ?post"] by simp
  then show ?thesis using ps by (simp add: process_parts_suffix)
qed

lemma recent_count:
  "length (filter (\<lambda>i. countable (h ! i) \<and> recency h i \<le> 3) [0..<length h])
   = min (manual_queries h) 3"
proof (induction h)
  case Nil
  then show ?case by (simp add: manual_queries_simps)
next
  case (Cons c h)
  have up: "[0..<length (c # h)] = 0 # map Suc [0..<length h]"
    by (simp add: upt_conv_Cons map_Suc_upt del: upt_Suc)
  have "filter (\<lambda>i. countable ((c # h) ! i) \<and> recency (c # h) i \<le> 3) (map Suc [0..<length h])
        = map Suc (filter (\<lambda>i. countable (h ! i) \<and> recency h i \<le> 3) [0..<length h])"
    by (simp add: filter_map comp_def recency_simps)
  then have "length (filter (\<lambda>i. countable ((c # h) ! i) \<and> recency (c # h) i \<le> 3)
                 (map Suc [0..<length h])) = min (manual_queries h) 3"
    using Cons.IH by simp
  then show ?case
    unfolding up by (auto simp: recency_simps manual_queries_simps)
qed

text \<open>
  C1: in a history whose countable user turns each contain exactly one inline image
  (with its bytes), after one run the image of a countable turn is still there exactly
  when the turn is among the 3 most recent countable turns; in every older countable turn
  the image is gone and its placeholder text stands in its place. The number of countable
  turns that keep their image is \<open>min K 3\<close>, for \<open>K\<close> the number of countable turns.
  A user turn has a first part, as the test for a countable turn reads it.
\<close>

theorem retention_boundary:
  assumes "\<forall>c \<in> set h. role c = Some (lit ''user'') \<longrightarrow> parts c \<noteq> []"
    and "\<forall>c \<in> set h. countable c \<longrightarrow>
           length (filter has_binary (parts c)) = 1
           \<and> (\<forall>p \<in> set (parts c). has_binary p \<longrightarrow> payload p \<noteq> None)"
  shows "\<exists>h'. modify_image_data_in_history h = Inr h' \<and> length h' = length h \<and>
     (\<forall>i < length h. countable (h ! i) \<longrightarrow>
        (\<forall>j < length (parts (h ! i)). has_binary (parts (h ! i) ! j) \<longrightarrow>
           (\<exists>d. payload (parts (h ! i) ! j) = Some d \<and>
              parts (h' ! i) =
                take j (parts (h ! i))
                @ (if recency h i \<le> 3 then [parts (h ! i) ! j] else [])
                @ (if is_placeholder_missing (parts (h ! i)) j
                   then [text_part (placeholder d)] else [])
                @ drop (Suc j) (parts (h ! i))))
        \<and> (filter has_binary (parts (h' ! i)) \<noteq> [] \<longleftrightarrow> recency h i \<le> 3))
     \<and> length (filter (\<lambda>i. countable (h ! i) \<and> filter has_binary (parts (h' ! i)) \<noteq> [])
                 [0..<length h])
        = min (manual_queries h) 3"
proof -
  have "payloads_present (parts c)" if "c \<in> set h" "countable c" for c
    unfolding payloads_present_def using assms(2) that by (metis nth_mem)
  then have "runs_ok h" unfolding runs_ok_def using assms(1) by blast
  then obtain h' where h': "modify_image_data_in_history h = Inr h'"
    using modify_returns by blast
  have len: "length h' = length h" using modify_length [OF h'] .
  have turn: "(\<forall>j < length (parts (h ! i)). has_binary (parts (h ! i) ! j) \<longrightarrow>
           (\<exists>d. payload (parts (h ! i) ! j) = Some d \<and>
              parts (h' ! i) =
                take j (parts (h ! i))
                @ (if recency h i \<le> 3 then [parts (h ! i) ! j] else [])
                @ (if is_placeholder_missing (parts (h ! i)) j
                   then [text_part (placeholder d)] else [])
                @ drop (Suc j) (parts (h ! i))))
        \<and> (filter has_binary (parts (h' ! i)) \<noteq> [] \<longleftrightarrow> recency h i \<le> 3)"
    if i: "i < length h" and c: "countable (h ! i)" for i
  proof -
    let ?ps = "parts (h ! i)"
    have mem: "h ! i \<in> set h" using i by simp
    have one: "length (filter has_binary ?ps) = 1" using assms(2) mem c by blast
    have pp: "process_parts (recency h i) ?ps = Inr (parts (h' ! i))"
      using modify_nth [OF h' i c] .
    have a: "\<exists>d. payload (?ps ! j) = Some d \<and>
              parts (h' ! i) =
                take j ?ps @ (if recency h i \<le> 3 then [?ps ! j] else [])
                @ (if is_placeholder_missing ?ps j then [text_part (placeholder d)] else [])
                @ drop (Suc j) ?ps"
      if j: "j < length ?ps" and b: "has_binary (?ps ! j)" for j
    proof -
      have "payload (?ps ! j) \<noteq> None" using assms(2) mem c j b by (meson nth_mem)
      then obtain d where d: "payload (?ps ! j) = Some d" by blast
      show ?thesis
        using process_parts_single_image [OF j b one d, of "recency h i"] pp d by simp
    qed
    have "filter has_binary ?ps \<noteq> []" using one by auto
    then have "filter has_binary (parts (h' ! i)) \<noteq> [] \<longleftrightarrow> recency h i \<le> 3"
      using process_parts_filter_binary [OF pp] by simp
    then show ?thesis using a by blast
  qed
  have "filter (\<lambda>i. countable (h ! i) \<and> filter has_binary (parts (h' ! i)) \<noteq> []) [0..<length h]
        = filter (\<lambda>i. countable (h ! i) \<and> recency h i \<le> 3) [0..<length h]"
    by (rule filter_cong) (use turn in auto)
  then have "length (filter (\<lambda>i. countable (h ! i) \<and> filter has_binary (parts (h' ! i)) \<noteq> [])
                 [0..<length h]) = min (manual_queries h) 3"
    by (simp add: recent_count)
  then show ?thesis using h' len turn by blast
qed


text \<open>
  Scenario A: five countable turns U1..U5, one image each. U1 and U2 are left with the
  placeholder only; U3, U4 and U5 keep image and placeholder.
\<close>

theorem retention_boundary_witness:
  "modify_image_data_in_history
        [user_turn [image_part [1]], user_turn [image_part [2]], user_turn [image_part [3]],
         user_turn [image_part [4]], user_turn [image_part [5]]]
      = Inr [user_turn [text_part (placeholder [1])], user_turn [text_part (placeholder [2])],
             user_turn [image_part [3], text_part (placeholder [3])],
             user_turn [image_part [4], text_part (placeholder [4])],
             user_turn [image_part [5], text_part (placeholder [5])]]
   \<and> length (filter (\<lambda>i. countable ([user_turn [image_part [1]], user_turn [image_part [2]],
                 user_turn [image_part [3]], user_turn [image_part [4]],
                 user_turn [image_part [5]]] ! i)
             \<and> filter has_binary (parts ([user_turn [text_part (placeholder [1])],
                 user_turn [text_part (placeholder [2])],
                 user_turn [image_part [3], text_part (placeholder [3])],
                 user_turn [image_part [4], text_part (placeholder [4])],
                 user_turn [image_part [5], text_part (placeholder [5])]] ! i)) \<noteq> [])
          [0..<5]) = 3"
proof -
  let ?h = "[user_turn [image_part [1]], user_turn [image_part [2]], user_turn [image_part [3]],
             user_turn [image_part [4]], user_turn [image_part [5]]]"
  let ?out = "[user_turn [text_part (placeholder [1])], user_turn [text_part (placeholder [2])],
             user_turn [image_part [3], text_part (placeholder [3])],
             user_turn [image_part [4], text_part (placeholder [4])],
             user_turn [image_part [5], text_part (placeholder [5])]]"
  have a1: "\<forall>c \<in> set ?h. role c = Some (lit ''user'') \<longrightarrow> parts c \<noteq> []"
    by (simp add: wf_simps)
  have a2: "\<forall>c \<in> set ?h. countable c \<longrightarrow> length (filter has_binary (parts c)) = 1
           \<and> (\<forall>p \<in> set (parts c). has_binary p \<longrightarrow> payload p \<noteq> None)"
    by (simp add: wf_simps)
  have ev: "modify_image_data_in_history ?h = Inr ?out"
    by (simp add: run_simps)
  have k: "manual_queries ?h = 5" by (simp add: manual_queries_simps wf_simps)
  from retention_boundary [OF a1 a2] obtain h' where
    h': "modify_image_data_in_history ?h = Inr h'"
    and n: "length (filter (\<lambda>i. countable (?h ! i) \<and> filter has_binary (parts (h' ! i)) \<noteq> [])
                 [0..<length ?h]) = min (manual_queries ?h) 3"
    by blast
  have o: "h' = ?out" using h' ev by simp
  have len5: "length ?h = 5" by simp
  have l5: "[0..<length ?h] = [0..<5]" by (simp only: len5)
  have m: "min (manual_queries ?h) 3 = 3" using k by simp
  have "length (filter (\<lambda>i. countable (?h ! i) \<and> filter has_binary (parts (?out ! i)) \<noteq> [])
                 [0..<5]) = 3"
    using n unfolding l5 m o .
  then show ?thesis using ev by blast
qed

subsection \<open>Malformed input\<close>

text \<open>
  C4, as stated, fails: a user turn with no parts makes \<open>content.parts[0]\<close> raise, and an
  inline binary without bytes that lacks a placeholder makes the hashing raise.
\<close>

theorem compactor_raises_counterexample:
  "modify_image_data_in_history [user_turn []] = Inl IndexError
   \<and> modify_image_data_in_history
        [user_turn [\<lparr>inline_data = Some \<lparr>data = None, mime_type = None\<rparr>,
                     part_text = None, function_response = None\<rparr>]] = Inl TypeError"
  by (simp add: modify_image_data_in_history_def compact_from_def is_manual_query_user_turn
      scenario_turn_simps process_parts_suffix emit_no_payload missing_Cons0)

text \<open>
  C4 (amended): the callback returns on every history in which every user turn has at
  least one part and every binary of a countable turn that is not already followed by
  an \<open>[IMAGE-ID \<close> text carries its bytes. There, a turn with no parts passes through
  unchanged; a part without inline data is copied as it is, whether or not it has a text;
  and a following part without text counts as no placeholder.
\<close>

theorem compactor_total_on_well_formed:
  assumes "runs_ok h"
  shows "(\<exists>h'. modify_image_data_in_history h = Inr h' \<and> length h' = length h
            \<and> (\<forall>i < length h. parts (h ! i) = [] \<longrightarrow> h' ! i = h ! i))
         \<and> (\<forall>n ps idx. inline_data (ps ! idx) = None \<longrightarrow> process_part n ps idx = Inr [ps ! idx])
         \<and> (\<forall>ps idx. idx + 1 < length ps \<and> part_text (ps ! (idx + 1)) = None
               \<longrightarrow> is_placeholder_missing ps idx)"
proof -
  obtain h' where h': "modify_image_data_in_history h = Inr h'"
    using modify_returns [OF assms] by blast
  have "h' ! i = h ! i" if "i < length h" "parts (h ! i) = []" for i
  proof -
    have "\<not> countable (h ! i)" using that(2) by (simp add: countable_iff)
    then show ?thesis
      using compact_from_nth [of 0 h h' i] h' that(1)
      by (simp add: modify_image_data_in_history_def)
  qed
  then have a: "\<exists>h'. modify_image_data_in_history h = Inr h' \<and> length h' = length h
            \<and> (\<forall>i < length h. parts (h ! i) = [] \<longrightarrow> h' ! i = h ! i)"
    using h' modify_length [OF h'] by blast
  have b: "\<forall>n ps idx. inline_data (ps ! idx) = None \<longrightarrow> process_part n ps idx = Inr [ps ! idx]"
    by (simp add: process_part_def)
  have c: "\<forall>ps idx. idx + 1 < length ps \<and> part_text (ps ! (idx + 1)) = None
               \<longrightarrow> is_placeholder_missing ps idx"
    by (simp add: is_placeholder_missing_def)
  show ?thesis using a b c by blast
qed

text \<open>
  A model turn with no parts, and a manual turn whose image is followed by a part with
  neither text nor data: the first is unchanged, the second gets its placeholder.
\<close>

theorem compactor_total_on_well_formed_witness:
  "runs_ok [model_turn [],
            user_turn [image_part [1],
                       \<lparr>inline_data = None, part_text = None, function_response = None\<rparr>]]
   \<and> (\<exists>h'. modify_image_data_in_history
              [model_turn [],
               user_turn [image_part [1],
                          \<lparr>inline_data = None, part_text = None, function_response = None\<rparr>]]
            = Inr h' \<and> length h' = 2 \<and> h' ! 0 = model_turn [])
   \<and> modify_image_data_in_history
        [model_turn [],
         user_turn [image_part [1],
                    \<lparr>inline_data = None, part_text = None, function_response = None\<rparr>]]
      = Inr [model_turn [],
             user_turn [image_part [1], text_part (placeholder [1]),
                        \<lparr>inline_data = None, part_text = None, function_response = None\<rparr>]]"
proof -
  let ?e = "\<lparr>inline_data = None, part_text = None, function_response = None\<rparr>"
  let ?h = "[model_turn [], user_turn [image_part [1], ?e]]"
  have m: "is_placeholder_missing [image_part [1], ?e] 0"
    by (simp add: missing_Cons0 is_placeholder_def)
  have ok: "runs_ok ?h" using m by (simp add: wf_simps lit_def has_binary_def)
  have pp: "process_parts 1 [image_part [1], ?e] = Inr [image_part [1], text_part (placeholder [1]), ?e]"
    using m by (simp add: process_parts_suffix emit_new_placeholder [where d = "[1]"] emit_plain
        scenario_part_simps)
  have ev: "modify_image_data_in_history ?h
      = Inr [model_turn [], user_turn [image_part [1], text_part (placeholder [1]), ?e]]"
    using pp by (simp add: run_simps)
  from compactor_total_on_well_formed [OF ok] obtain h' where
    h': "modify_image_data_in_history ?h = Inr h'" "length h' = length ?h"
    and e: "\<forall>i < length ?h. parts (?h ! i) = [] \<longrightarrow> h' ! i = ?h ! i"
    by blast
  have "h' ! 0 = model_turn []" using e [rule_format, of 0] by (simp add: scenario_turn_simps)
  then show ?thesis using ok ev h' by simp
qed

subsection \<open>A manual turn without images\<close>

text \<open>
  C7, as stated, fails: a countable turn without images is counted. With three image
  turns alone, all three keep their image; with a text-only manual turn after them, the
  oldest loses its image.
\<close>

theorem image_free_turn_shifts_window_counterexample:
  "countable (user_turn [text_part (lit ''hi'')])
   \<and> filter has_binary (parts (user_turn [text_part (lit ''hi'')])) = []
   \<and> modify_image_data_in_history
        [user_turn [image_part [1]], user_turn [image_part [2]], user_turn [image_part [3]]]
      = Inr [user_turn [image_part [1], text_part (placeholder [1])],
             user_turn [image_part [2], text_part (placeholder [2])],
             user_turn [image_part [3], text_part (placeholder [3])]]
   \<and> modify_image_data_in_history
        [user_turn [image_part [1]], user_turn [image_part [2]], user_turn [image_part [3]],
         user_turn [text_part (lit ''hi'')]]
      = Inr [user_turn [text_part (placeholder [1])],
             user_turn [image_part [2], text_part (placeholder [2])],
             user_turn [image_part [3], text_part (placeholder [3])],
             user_turn [text_part (lit ''hi'')]]"
  by (simp add: run_simps wf_simps)

text \<open>
  C7 (amended): a countable user turn without images passes through with its parts
  unchanged and leaves the result of the newer turns as it is, but it is counted: the
  older turns are processed with the counter one higher than without it.
\<close>

theorem image_free_turn_is_counted:
  assumes "countable c" and "filter has_binary (parts c) = []"
  shows "modify_image_data_in_history (xs @ c # ys) =
           (case modify_image_data_in_history ys of
              Inl e \<Rightarrow> Inl e
            | Inr ys' \<Rightarrow>
                (case compact_from (Suc (manual_queries ys)) xs of
                   Inl e \<Rightarrow> Inl e
                 | Inr xs' \<Rightarrow> Inr (xs' @ c # ys')))
         \<and> modify_image_data_in_history (xs @ ys) =
           (case modify_image_data_in_history ys of
              Inl e \<Rightarrow> Inl e
            | Inr ys' \<Rightarrow>
                (case compact_from (manual_queries ys) xs of
                   Inl e \<Rightarrow> Inl e
                 | Inr xs' \<Rightarrow> Inr (xs' @ ys')))"
proof -
  have q: "is_manual_query c = Inr True" using assms(1) by (simp add: countable_def)
  have "\<forall>p \<in> set (parts c). \<not> has_binary p" using assms(2) by (simp add: filter_empty_conv)
  then have pp: "process_parts k (parts c) = Inr (parts c)" for k
    by (simp add: process_parts_suffix emit_binary_free)
  have one: "compact_from k [c] = Inr [c]" for k
    by (simp add: compact_from_single q pp)
  have cy: "compact_from 0 (c # ys) =
      (case compact_from 0 ys of Inl e \<Rightarrow> Inl e | Inr ys' \<Rightarrow> Inr (c # ys'))"
    unfolding compact_from_Cons [of 0 c ys] by (simp add: one split: sum.splits)
  have "compact_from 0 (xs @ c # ys) =
           (case compact_from 0 ys of
              Inl e \<Rightarrow> Inl e
            | Inr ys' \<Rightarrow>
                (case compact_from (Suc (manual_queries ys)) xs of
                   Inl e \<Rightarrow> Inl e
                 | Inr xs' \<Rightarrow> Inr (xs' @ c # ys')))"
    using assms(1)
    by (simp add: compact_from_append [of 0 xs "c # ys"] cy manual_queries_simps split: sum.splits)
  moreover have "compact_from 0 (xs @ ys) =
           (case compact_from 0 ys of
              Inl e \<Rightarrow> Inl e
            | Inr ys' \<Rightarrow>
                (case compact_from (manual_queries ys) xs of
                   Inl e \<Rightarrow> Inl e
                 | Inr xs' \<Rightarrow> Inr (xs' @ ys')))"
    by (simp add: compact_from_append [of 0 xs ys] split: sum.splits)
  ultimately show ?thesis by (simp add: modify_image_data_in_history_def)
qed

theorem image_free_turn_is_counted_witness:
  "countable (user_turn [text_part (lit ''hi'')])
   \<and> filter has_binary (parts (user_turn [text_part (lit ''hi'')])) = []
   \<and> compact_from (Suc (manual_queries []))
        [user_turn [image_part [1]], user_turn [image_part [2]], user_turn [image_part [3]]]
      = Inr [user_turn [text_part (placeholder [1])],
             user_turn [image_part [2], text_part (placeholder [2])],
             user_turn [image_part [3], text_part (placeholder [3])]]
   \<and> modify_image_data_in_history
        ([user_turn [image_part [1]], user_turn [image_part [2]], user_turn [image_part [3]]]
         @ user_turn [text_part (lit ''hi'')] # [])
      = Inr ([user_turn [text_part (placeholder [1])],
              user_turn [image_part [2], text_part (placeholder [2])],
              user_turn [image_part [3], text_part (placeholder [3])]]
             @ user_turn [text_part (lit ''hi'')] # [])"
proof -
  let ?t = "user_turn [text_part (lit ''hi'')]"
  let ?xs = "[user_turn [image_part [1]], user_turn [image_part [2]], user_turn [image_part [3]]]"
  have c: "countable ?t" by (simp add: wf_simps)
  have f: "filter has_binary (parts ?t) = []" by (simp add: wf_simps)
  have x: "compact_from (Suc (manual_queries [])) ?xs
      = Inr [user_turn [text_part (placeholder [1])],
             user_turn [image_part [2], text_part (placeholder [2])],
             user_turn [image_part [3], text_part (placeholder [3])]]"
    by (simp add: run_simps manual_queries_simps)
  have y: "modify_image_data_in_history [] = Inr []"
    by (simp add: run_simps)
  show ?thesis
    using image_free_turn_is_counted [OF c f, of ?xs "[]"] c f x y by simp
qed

subsection \<open>The digest and the placeholder text\<close>

lemma length_round256: "length (round256 s kw) = length s"
  by (induction s kw rule: round256.induct) (simp_all add: Let_def)

lemma length_foldl_round256: "length (foldl round256 s kws) = length s"
  by (induction kws arbitrary: s) (simp_all add: length_round256)

lemma length_compress: "length (compress h block) = length h"
  by (simp add: compress_def length_foldl_round256)

lemma length_blocks: "length (blocks n h ws) = length h"
  by (induction n arbitrary: h ws) (simp_all add: length_compress)

lemma length_sha256: "length (sha256 m) = 8"
  by (simp add: sha256_def Let_def length_blocks H256_def)

lemma hexchar_range: "hexchar x \<in> set ''0123456789abcdef''"
proof -
  have "unat (x AND 15) \<le> unat (15 :: w32)"
    by (rule word_and_le1 [THEN word_le_nat_alt [THEN iffD1]])
  then have "unat (x AND 15) < length ''0123456789abcdef''" by simp
  then show ?thesis unfolding hexchar_def by (rule nth_mem)
qed

lemma hex32_props: "length (hex32 w) = 8" "set (hex32 w) \<subseteq> set ''0123456789abcdef''"
  using hexchar_range by (auto simp: hex32_def)

lemma hexdigest_props:
  "length (hexdigest m) = 64" "set (hexdigest m) \<subseteq> set ''0123456789abcdef''"
proof -
  have "length (concat (map hex32 ws)) = 8 * length ws" for ws
    by (induction ws) (simp_all add: hex32_props)
  then show "length (hexdigest m) = 64" by (simp add: hexdigest_def length_sha256)
  show "set (hexdigest m) \<subseteq> set ''0123456789abcdef''"
    unfolding hexdigest_def using hex32_props(2) by (auto simp del: set_simps list.set)
qed

text \<open>The digest of \<open>abc\<close>, as FIPS 180-4 gives it, computed by the definitions above.\<close>

lemma hexdigest_abc:
  "hexdigest [0x61, 0x62, 0x63] = ''ba7816bf8f01cfea414140de5dae2223b00361a396177a9cb410ff61f20015ad''"
  by code_simp

lemma modify_parts_origin:
  assumes "modify_image_data_in_history h = Inr h'" and "i < length h"
    and "q \<in> set (parts (h' ! i))"
  shows "q \<in> set (parts (h ! i))
         \<or> (\<exists>p \<in> set (parts (h ! i)). \<exists>d. payload p = Some d \<and> q = text_part (placeholder d))"
proof (cases "countable (h ! i)")
  case True
  have "process_parts (recency h i) (parts (h ! i)) = Inr (parts (h' ! i))"
    using modify_nth [OF assms(1,2) True] .
  then show ?thesis
    using emit_parts_origin [of "recency h i" "parts (h ! i)" "parts (h' ! i)" q] assms(3)
    by (simp add: process_parts_suffix)
next
  case False
  then have "h' ! i = h ! i"
    using compact_from_nth [of 0 h h' i] assms(1,2)
    by (simp add: modify_image_data_in_history_def)
  then show ?thesis using assms(3) by simp
qed

text \<open>
  C6: every part the callback creates is a text part with the text \<open>[IMAGE-ID \<close>, then
  the first 12 characters of the SHA-256 hex digest of the bytes of an image of that turn,
  then \<open>]\<close>; these 12 characters are lowercase hexadecimal digits; and the text is a
  function of the bytes alone, so equal bytes give equal placeholders in every run.
\<close>

theorem placeholder_format:
  assumes "modify_image_data_in_history h = Inr h'" and "i < length h"
    and "q \<in> set (parts (h' ! i))" and "q \<notin> set (parts (h ! i))"
  shows "\<exists>p d. p \<in> set (parts (h ! i)) \<and> payload p = Some d
           \<and> q = text_part (lit ''[IMAGE-ID '' @ lit (take 12 (hexdigest d)) @ lit '']'')
           \<and> length (take 12 (hexdigest d)) = 12
           \<and> set (take 12 (hexdigest d)) \<subseteq> set ''0123456789abcdef''
           \<and> (\<forall>d'. d' = d \<longrightarrow> placeholder d' = placeholder d)"
proof -
  obtain p d where p: "p \<in> set (parts (h ! i))" "payload p = Some d"
    and q: "q = text_part (placeholder d)"
    using modify_parts_origin [OF assms(1-3)] assms(4) by blast
  have "set (take 12 (hexdigest d)) \<subseteq> set ''0123456789abcdef''"
    using hexdigest_props(2) [of d] set_take_subset [of 12 "hexdigest d"] by blast
  then show ?thesis
    using p q hexdigest_props(1) [of d]
    by (auto simp: placeholder_def image_hash_id_def)
qed

text \<open>
  A turn with the image \<open>abc\<close>: the part the callback adds is \<open>[IMAGE-ID ba7816bf8f01]\<close>.
\<close>

theorem placeholder_format_witness:
  "modify_image_data_in_history [user_turn [image_part [0x61, 0x62, 0x63]]]
     = Inr [user_turn [image_part [0x61, 0x62, 0x63], text_part (lit ''[IMAGE-ID ba7816bf8f01]'')]]
   \<and> text_part (lit ''[IMAGE-ID ba7816bf8f01]'')
       \<notin> set (parts ([user_turn [image_part [0x61, 0x62, 0x63]]] ! 0))
   \<and> (\<exists>p d. p \<in> set (parts ([user_turn [image_part [0x61, 0x62, 0x63]]] ! 0))
         \<and> payload p = Some d
         \<and> text_part (lit ''[IMAGE-ID ba7816bf8f01]'')
           = text_part (lit ''[IMAGE-ID '' @ lit (take 12 (hexdigest d)) @ lit '']'')
         \<and> length (take 12 (hexdigest d)) = 12)"
proof -
  let ?h = "[user_turn [image_part [0x61, 0x62, 0x63]]]"
  let ?q = "text_part (lit ''[IMAGE-ID ba7816bf8f01]'')"
  have ph: "placeholder [0x61, 0x62, 0x63] = lit ''[IMAGE-ID ba7816bf8f01]''"
    by (simp add: placeholder_def image_hash_id_def hexdigest_abc lit_def)
  have ev: "modify_image_data_in_history ?h = Inr [user_turn [image_part [0x61, 0x62, 0x63], ?q]]"
    by (simp add: run_simps ph)
  have i: "0 < length ?h" by simp
  have m: "?q \<in> set (parts ([user_turn [image_part [0x61, 0x62, 0x63], ?q]] ! 0))"
    by (simp add: scenario_turn_simps)
  have n: "?q \<notin> set (parts (?h ! 0))"
    by (simp add: scenario_turn_simps text_part_def image_part_def)
  show ?thesis
    using placeholder_format [OF ev i m n] ev n by blast
qed

subsection \<open>The placeholder after every binary\<close>

lemma length_placeholder: "length (placeholder d) = 23"
  by (simp add: placeholder_def image_hash_id_def lit_def hexdigest_props)

text \<open>
  C3, as stated, fails: an image already followed by a text that starts with
  \<open>[IMAGE-ID \<close> gets no placeholder of its own, whatever that text says. Here the text
  is not the placeholder of the image's bytes, and the run leaves the turn as it is.
\<close>

theorem foreign_placeholder_counterexample:
  "modify_image_data_in_history
     [user_turn [image_part [1], text_part (lit ''[IMAGE-ID cat] is this my cat?'')]]
   = Inr [user_turn [image_part [1], text_part (lit ''[IMAGE-ID cat] is this my cat?'')]]
   \<and> text_part (lit ''[IMAGE-ID cat] is this my cat?'') \<noteq> text_part (placeholder [1])
   \<and> text_part (placeholder [1])
       \<notin> set [image_part [1], text_part (lit ''[IMAGE-ID cat] is this my cat?'')]"
proof -
  let ?t = "text_part (lit ''[IMAGE-ID cat] is this my cat?'')"
  have p: "is_placeholder ?t"
    by (simp add: is_placeholder_def text_part_simps startswith_def lit_def)
  have pp: "process_parts 1 [image_part [1], ?t] = Inr [image_part [1], ?t]"
    using p by (simp add: process_parts_suffix emit_old_placeholder emit_plain
        scenario_part_simps text_part_simps missing_Cons0)
  have ev: "modify_image_data_in_history [user_turn [image_part [1], ?t]]
      = Inr [user_turn [image_part [1], ?t]]"
    using pp by (simp add: run_simps)
  have "length (lit ''[IMAGE-ID cat] is this my cat?'') \<noteq> length (placeholder [1])"
    by (simp add: length_placeholder lit_def)
  then have ne: "?t \<noteq> text_part (placeholder [1])"
    by (auto simp: text_part_def)
  have "image_part [1] \<noteq> text_part (placeholder [1])"
    by (simp add: text_part_def image_part_def)
  then show ?thesis using ev ne by auto
qed

lemma loop_split_at:
  assumes "j < length ps"
  shows "process_parts_loop n ps [0..<length ps] [] =
     (case process_parts_loop n ps [0..<j] [] of
        Inl e \<Rightarrow> Inl e
      | Inr A \<Rightarrow>
          (case process_part n ps j of
             Inl e \<Rightarrow> Inl e
           | Inr new \<Rightarrow>
               (case process_parts_loop n ps [Suc j..<length ps] [] of
                  Inl e \<Rightarrow> Inl e
                | Inr C \<Rightarrow> Inr (A @ new @ C))))"
proof -
  let ?rest = "[Suc j..<length ps]"
  have "[0..<length ps] = [0..<j] @ j # ?rest"
    using assms by (metis less_imp_le_nat upt_add_eq_append upt_conv_Cons le0 le_add_diff_inverse)
  then have split: "process_parts_loop n ps [0..<length ps] [] =
      (case process_parts_loop n ps [0..<j] [] of
         Inl e \<Rightarrow> Inl e
       | Inr A \<Rightarrow> process_parts_loop n ps (j # ?rest) A)"
    by (simp only: loop_append)
  show ?thesis
  proof (cases "process_parts_loop n ps [0..<j] []")
    case (Inl e)
    then show ?thesis using split by simp
  next
    case A: (Inr A)
    show ?thesis
    proof (cases "process_part n ps j")
      case (Inl e)
      then show ?thesis using split A by simp
    next
      case (Inr new)
      have "process_parts_loop n ps (j # ?rest) A = process_parts_loop n ps ?rest (A @ new)"
        using Inr by simp
      also have "\<dots> = (case process_parts_loop n ps ?rest [] of
                          Inl e \<Rightarrow> Inl e | Inr C \<Rightarrow> Inr ((A @ new) @ C))"
        by (rule loop_acc)
      finally show ?thesis using split A Inr by (simp split: sum.splits)
    qed
  qed
qed

text \<open>
  C3 (amended): on every history on which the callback returns, each inline binary of a
  countable user turn is, in the rewritten turn, followed at once by a text part that
  starts with \<open>[IMAGE-ID \<close>: after the binary where the turn is among the 3 most recent,
  in its place otherwise. Where the binary was not already followed by such a text, this
  is one new placeholder with the hash id of its bytes, and the later parts follow it;
  where it was, nothing is inserted, and a following part that is no binary stays as it
  is, whatever id its text carries. The parts before the binary are rewritten on their
  own.
\<close>

theorem placeholder_after_every_binary:
  assumes "runs_ok h"
  shows "\<exists>h'. modify_image_data_in_history h = Inr h' \<and>
     (\<forall>i < length h. countable (h ! i) \<longrightarrow>
        (\<forall>j < length (parts (h ! i)). has_binary (parts (h ! i) ! j) \<longrightarrow>
           (\<exists>A B.
              process_parts_loop (recency h i) (parts (h ! i)) [0..<j] [] = Inr A
              \<and> parts (h' ! i) =
                  A @ (if recency h i \<le> 3 then [parts (h ! i) ! j] else []) @ B
              \<and> B \<noteq> [] \<and> is_placeholder (hd B)
              \<and> (if is_placeholder_missing (parts (h ! i)) j
                 then (\<exists>d. payload (parts (h ! i) ! j) = Some d
                          \<and> hd B = text_part (placeholder d))
                      \<and> process_parts_loop (recency h i) (parts (h ! i))
                            [Suc j..<length (parts (h ! i))] [] = Inr (tl B)
                 else process_parts_loop (recency h i) (parts (h ! i))
                            [Suc j..<length (parts (h ! i))] [] = Inr B
                      \<and> (\<not> has_binary (parts (h ! i) ! Suc j)
                           \<longrightarrow> hd B = parts (h ! i) ! Suc j)))))"
proof -
  obtain h' where h': "modify_image_data_in_history h = Inr h'"
    using modify_returns [OF assms] by blast
  have "\<exists>A B.
          process_parts_loop (recency h i) (parts (h ! i)) [0..<j] [] = Inr A
          \<and> parts (h' ! i) = A @ (if recency h i \<le> 3 then [parts (h ! i) ! j] else []) @ B
          \<and> B \<noteq> [] \<and> is_placeholder (hd B)
          \<and> (if is_placeholder_missing (parts (h ! i)) j
             then (\<exists>d. payload (parts (h ! i) ! j) = Some d \<and> hd B = text_part (placeholder d))
                  \<and> process_parts_loop (recency h i) (parts (h ! i))
                        [Suc j..<length (parts (h ! i))] [] = Inr (tl B)
             else process_parts_loop (recency h i) (parts (h ! i))
                        [Suc j..<length (parts (h ! i))] [] = Inr B
                  \<and> (\<not> has_binary (parts (h ! i) ! Suc j) \<longrightarrow> hd B = parts (h ! i) ! Suc j))"
    if i: "i < length h" and c: "countable (h ! i)"
      and j: "j < length (parts (h ! i))" and b: "has_binary (parts (h ! i) ! j)" for i j
  proof -
    let ?ps = "parts (h ! i)" and ?r = "recency h i"
    let ?keep = "if ?r \<le> 3 then [?ps ! j] else []"
    have "process_parts ?r ?ps = Inr (parts (h' ! i))" using modify_nth [OF h' i c] .
    then obtain A new C where A: "process_parts_loop ?r ?ps [0..<j] [] = Inr A"
      and new: "process_part ?r ?ps j = Inr new"
      and C: "process_parts_loop ?r ?ps [Suc j..<length ?ps] [] = Inr C"
      and out: "parts (h' ! i) = A @ new @ C"
      unfolding process_parts_def loop_split_at [OF j] by (auto split: sum.splits)
    obtain bl where bl: "inline_data (?ps ! j) = Some bl" using b by (auto simp: has_binary_def)
    show ?thesis
    proof (cases "is_placeholder_missing ?ps j")
      case True
      then obtain d where d: "data bl = Some d" and n: "new = ?keep @ [text_part (placeholder d)]"
        using new bl by (auto simp: process_part_def split: option.splits)
      have pd: "payload (?ps ! j) = Some d" using bl d by (simp add: payload_def)
      let ?B = "text_part (placeholder d) # C"
      have "parts (h' ! i) = A @ ?keep @ ?B" using out n by simp
      then show ?thesis
        using A C True pd is_placeholder_text_part [of d]
        by (intro exI [of _ A] exI [of _ ?B]) simp
    next
      case False
      then have n: "new = ?keep" using new bl by (simp add: process_part_def)
      have sj: "Suc j < length ?ps" using False by (simp add: is_placeholder_missing_def)
      have pq: "is_placeholder (?ps ! Suc j)"
        using False by (simp add: is_placeholder_missing_def is_placeholder_def split: option.splits)
      have dr: "drop (Suc j) ?ps = ?ps ! Suc j # drop (Suc (Suc j)) ?ps"
        using sj by (simp add: Cons_nth_drop_Suc)
      have es: "emit_suffix ?r (?ps ! Suc j # drop (Suc (Suc j)) ?ps) = Inr C"
        using C loop_suffix [of "Suc j" ?ps ?r] sj dr by simp
      have hdC: "C \<noteq> [] \<and> is_placeholder (hd C)"
        using emit_placeholder_head [OF es pq] .
      have same: "hd C = ?ps ! Suc j" if "\<not> has_binary (?ps ! Suc j)"
      proof -
        have "inline_data (?ps ! Suc j) = None" using that by (simp add: has_binary_def)
        then show ?thesis using es by (auto simp: emit_plain split: sum.splits)
      qed
      have "parts (h' ! i) = A @ ?keep @ C" using out n by simp
      then show ?thesis
        using A C False hdC same
        by (intro exI [of _ A] exI [of _ C]) simp
    qed
  qed
  then show ?thesis using h' by blast
qed

text \<open>
  An old turn (fourth most recent) with a text before its image: the image is replaced
  by its placeholder, after the text.
\<close>

theorem placeholder_after_every_binary_witness:
  "runs_ok [user_turn [text_part (lit ''look''), image_part [1]], user_turn [text_part (lit ''a'')],
            user_turn [text_part (lit ''b'')], user_turn [text_part (lit ''c'')]]
   \<and> modify_image_data_in_history
        [user_turn [text_part (lit ''look''), image_part [1]], user_turn [text_part (lit ''a'')],
         user_turn [text_part (lit ''b'')], user_turn [text_part (lit ''c'')]]
      = Inr [user_turn [text_part (lit ''look''), text_part (placeholder [1])],
             user_turn [text_part (lit ''a'')],
             user_turn [text_part (lit ''b'')], user_turn [text_part (lit ''c'')]]
   \<and> (\<exists>h' A B.
         modify_image_data_in_history
           [user_turn [text_part (lit ''look''), image_part [1]], user_turn [text_part (lit ''a'')],
            user_turn [text_part (lit ''b'')], user_turn [text_part (lit ''c'')]] = Inr h'
         \<and> parts (h' ! 0) = A @ B \<and> hd B = text_part (placeholder [1]))"
proof -
  let ?u = "user_turn [text_part (lit ''look''), image_part [1]]"
  let ?h = "[?u, user_turn [text_part (lit ''a'')],
             user_turn [text_part (lit ''b'')], user_turn [text_part (lit ''c'')]]"
  have ok: "runs_ok ?h" by (simp add: wf_simps)
  have pp: "process_parts n [text_part (lit ''look''), image_part [1]]
      = Inr (text_part (lit ''look'') # (if n \<le> 3 then [image_part [1]] else [])
             @ [text_part (placeholder [1])])" for n
    by (simp add: process_parts_suffix emit_plain emit_new_placeholder [where d = "[1]"]
        text_part_simps scenario_part_simps missing_Cons0)
  have ev: "modify_image_data_in_history ?h
      = Inr [user_turn [text_part (lit ''look''), text_part (placeholder [1])],
             user_turn [text_part (lit ''a'')],
             user_turn [text_part (lit ''b'')], user_turn [text_part (lit ''c'')]]"
    by (simp add: run_simps pp)
  have rec: "recency ?h 0 = 4" by (simp add: recency_def manual_queries_simps wf_simps)
  have c0: "countable (?h ! 0)" by (simp add: wf_simps)
  have ps: "parts (?h ! 0) = [text_part (lit ''look''), image_part [1]]"
    by (simp add: scenario_turn_simps)
  have m: "is_placeholder_missing [text_part (lit ''look''), image_part [1]] 1"
    by (simp add: is_placeholder_missing_def)
  from placeholder_after_every_binary [OF ok] obtain h' where
    h': "modify_image_data_in_history ?h = Inr h'"
    and all: "\<forall>i < length ?h. countable (?h ! i) \<longrightarrow>
        (\<forall>j < length (parts (?h ! i)). has_binary (parts (?h ! i) ! j) \<longrightarrow>
           (\<exists>A B.
              process_parts_loop (recency ?h i) (parts (?h ! i)) [0..<j] [] = Inr A
              \<and> parts (h' ! i) =
                  A @ (if recency ?h i \<le> 3 then [parts (?h ! i) ! j] else []) @ B
              \<and> B \<noteq> [] \<and> is_placeholder (hd B)
              \<and> (if is_placeholder_missing (parts (?h ! i)) j
                 then (\<exists>d. payload (parts (?h ! i) ! j) = Some d
                          \<and> hd B = text_part (placeholder d))
                      \<and> process_parts_loop (recency ?h i) (parts (?h ! i))
                            [Suc j..<length (parts (?h ! i))] [] = Inr (tl B)
                 else process_parts_loop (recency ?h i) (parts (?h ! i))
                            [Suc j..<length (parts (?h ! i))] [] = Inr B
                      \<and> (\<not> has_binary (parts (?h ! i) ! Suc j)
                           \<longrightarrow> hd B = parts (?h ! i) ! Suc j))))"
    by blast
  have "\<exists>A B. parts (h' ! 0) = A @ B \<and> hd B = text_part (placeholder [1])"
    using all [rule_format, of 0 1] c0 m unfolding ps rec
    by (auto simp: scenario_part_simps)
  then show ?thesis using ok ev h' by blast
qed

end
